theory Spec2Isabelle
  imports Main "HOL-Library.Multiset"
begin

section \<open>Data model of avl.hpp\<close>

text \<open>
  The enumerations of namespace AVL, and the ways an operation can fail: dereferencing a
  null pointer, the \<open>std::out_of_range\<close> thrown by FindIndex, a read outside a
  result array, and a signed sum that leaves the range of \<open>long long\<close>.
\<close>

datatype COMPARE_RESULT = LESS_THAN | EQUAL | GREATER_THAN

datatype NODE_POSITION = ROOT | LEFT_CHILD | RIGHT_CHILD

datatype error = NullDereference | OutOfRange | OutOfBounds | SignedOverflow

text \<open>The default comparator \<open>CompareFunc::operator()\<close>.\<close>

definition CompareFunc :: "'k::linorder \<Rightarrow> 'k \<Rightarrow> COMPARE_RESULT" where
  "CompareFunc key1 key2 =
     (if key1 < key2 then LESS_THAN else if key1 > key2 then GREATER_THAN else EQUAL)"

text \<open>
  Class FilterObject; a null \<open>min_range\<close>, \<open>max_range\<close> or \<open>FilterFunction\<close> is
  \<open>None\<close>. \<open>FilterObject_default\<close> is its constructor.
\<close>

record ('k, 'v) FilterObject =
  limit :: int
  reverse :: bool
  min_range :: "'k option"
  max_range :: "'k option"
  FilterFunction :: "('k \<Rightarrow> 'v \<Rightarrow> bool) option"

definition FilterObject_default :: "('k, 'v) FilterObject" where
  "FilterObject_default =
     \<lparr>limit = - 1, reverse = False, min_range = None, max_range = None, FilterFunction = None\<rparr>"

text \<open>
  A rank class is used through four operations: the default constructor, the
  constructor from a key and a value, \<open>+=\<close> and \<open>-=\<close>; FindIndexTraverse,
  GetIndexOfKeyTraverse and CollectRank also read its numeric field \<open>rank\<close>. The model
  keeps that field, an integer (type Number is \<open>long long\<close>; element counts stay far
  from its bounds, and the one number a caller supplies to the arithmetic, the limit of
  a filter in CollectRank, is checked against them by \<open>signed_ll\<close>), takes \<open>+=\<close> and \<open>-=\<close> as they are in DefaultRank, the default
  constructor as 0, and leaves the constructor from a key and a value as a parameter
  \<open>ri\<close> of every operation that builds a rank. DefaultRank is the shipped instance.
\<close>

type_synonym ('k, 'v) RankInfo = "'k \<Rightarrow> 'v \<Rightarrow> int"

definition DefaultRank :: "('k, 'v) RankInfo" where
  "DefaultRank k v = 1"

text \<open>
  Class Node: children, key, value, stored height and stored rank. The tree owns its
  nodes, so a node is modelled with its subtrees; NULL is the null pointer. The field
  \<open>parent\<close> is not stored: every operation of the source that relinks a child sets that
  child's \<open>parent\<close> to the node it hangs under, so the parent of a node is the node
  above it, and a pointer to a node is modelled by the node's position (below).
\<close>

datatype ('k, 'v) Node =
    NULL
  | Node (left_child: "('k, 'v) Node") (key: 'k) (val: 'v) (height: int) (rank: int)
      (right_child: "('k, 'v) Node")

text \<open>
  A position is the list of links from a node up to the root, nearest link first, so that
  \<open>node->parent\<close> drops the first link. A pointer is a position or null (\<open>None\<close>);
  \<open>deref\<close> reads the node a position names.
\<close>

datatype link = LeftLink | RightLink

type_synonym pointer = "link list option"

fun follow :: "('k, 'v) Node \<Rightarrow> link list \<Rightarrow> ('k, 'v) Node" where
  "follow t [] = t"
| "follow NULL (d # ds) = NULL"
| "follow (Node l k v h rk r) (LeftLink # ds) = follow l ds"
| "follow (Node l k v h rk r) (RightLink # ds) = follow r ds"

definition deref :: "('k, 'v) Node \<Rightarrow> link list \<Rightarrow> ('k, 'v) Node" where
  "deref rt p = follow rt (rev p)"

text \<open>Class KeyValuePair is a pair; class QueryResult is the result array and its count.\<close>

record ('k, 'v) QueryResult =
  result :: "('k \<times> 'v) list"
  total :: int

text \<open>Class AVLRankTree: the fields of a tree object.\<close>

record ('k, 'v) AVLRankTree =
  size_field :: int
  root :: "('k, 'v) Node"
  max_node :: pointer
  min_node :: pointer

section \<open>Rotations and balance\<close>

definition rank_of :: "('k, 'v) Node \<Rightarrow> int" where
  "rank_of c = (case c of NULL \<Rightarrow> 0 | Node l k v h rk r \<Rightarrow> rk)"

text \<open>UpdateRank: the target's rank becomes its own contribution plus the ranks of the
  two given children, each added when it is not null.\<close>

definition UpdateRank ::
  "('k, 'v) RankInfo \<Rightarrow> ('k, 'v) Node \<Rightarrow> ('k, 'v) Node \<Rightarrow> ('k, 'v) Node \<Rightarrow> ('k, 'v) Node" where
  "UpdateRank ri target child_node1 child_node2 =
     (case target of
        NULL \<Rightarrow> NULL
      | Node l k v h rk r \<Rightarrow> Node l k v h (ri k v + rank_of child_node1 + rank_of child_node2) r)"

definition GetHeight :: "('k, 'v) Node \<Rightarrow> int" where
  "GetHeight node = (case node of NULL \<Rightarrow> - 1 | Node l k v h rk r \<Rightarrow> h)"

text \<open>RotateR and RotateL read \<open>x->left_child->right_child\<close> (resp. its mirror) without a
  null check: on a null node or a null pivot they dereference null.\<close>

fun RotateR :: "('k, 'v) RankInfo \<Rightarrow> ('k, 'v) Node \<Rightarrow> error + ('k, 'v) Node" where
  "RotateR ri (Node (Node yl yk yv yh yrk y_right) xk xv xh xrk xr) =
     (let x1 = Node y_right xk xv (max (GetHeight y_right) (GetHeight xr) + 1) xrk xr;
          yh' = max (GetHeight yl) (GetHeight x1) + 1;
          x2 = UpdateRank ri x1 y_right xr
      in Inr (UpdateRank ri (Node yl yk yv yh' yrk x2) yl x2))"
| "RotateR ri t = Inl NullDereference"

fun RotateL :: "('k, 'v) RankInfo \<Rightarrow> ('k, 'v) Node \<Rightarrow> error + ('k, 'v) Node" where
  "RotateL ri (Node xl xk xv xh xrk (Node y_left yk yv yh yrk yr)) =
     (let x1 = Node xl xk xv (max (GetHeight y_left) (GetHeight xl) + 1) xrk y_left;
          yh' = max (GetHeight yr) (GetHeight x1) + 1;
          x2 = UpdateRank ri x1 y_left xl
      in Inr (UpdateRank ri (Node x2 yk yv yh' yrk yr) yr x2))"
| "RotateL ri t = Inl NullDereference"

definition GetBalance :: "('k, 'v) Node \<Rightarrow> error + int" where
  "GetBalance node =
     (case node of
        NULL \<Rightarrow> Inl NullDereference
      | Node l k v h rk r \<Rightarrow> Inr (GetHeight l - GetHeight r))"

text \<open>
  Balance. The source tests four conjunctions in the order LL, RR, LR, RL; the second
  conjunct of each is evaluated only when the first holds, so the balance of a child is
  read only under balance 2 (left child) or -2 (right child). The nesting below is that
  evaluation order.
\<close>

definition Balance :: "('k, 'v) RankInfo \<Rightarrow> ('k, 'v) Node \<Rightarrow> error + ('k, 'v) Node" where
  "Balance ri node =
     (case node of
        NULL \<Rightarrow> Inl NullDereference
      | Node l k v h rk r \<Rightarrow>
          if GetHeight l - GetHeight r = 2 then
            (case GetBalance l of
               Inl e \<Rightarrow> Inl e
             | Inr bl \<Rightarrow>
                 if bl \<ge> 0 then RotateR ri node
                 else (case RotateL ri l of
                         Inl e \<Rightarrow> Inl e
                       | Inr l' \<Rightarrow> RotateR ri (Node l' k v h rk r)))
          else if GetHeight l - GetHeight r = - 2 then
            (case GetBalance r of
               Inl e \<Rightarrow> Inl e
             | Inr br \<Rightarrow>
                 if br \<le> 0 then RotateL ri node
                 else (case RotateR ri r of
                         Inl e \<Rightarrow> Inl e
                       | Inr r' \<Rightarrow> RotateL ri (Node l k v h rk r')))
          else Inr node)"

section \<open>Private traversals\<close>

text \<open>FindMin and FindMax take a node and its position and return a pointer.\<close>

fun FindMin :: "('k, 'v) Node \<Rightarrow> link list \<Rightarrow> pointer" where
  "FindMin NULL pos = None"
| "FindMin (Node l k v h rk r) pos =
     (if l = NULL then Some pos else FindMin l (LeftLink # pos))"

fun FindMax :: "('k, 'v) Node \<Rightarrow> link list \<Rightarrow> pointer" where
  "FindMax NULL pos = None"
| "FindMax (Node l k v h rk r) pos =
     (if r = NULL then Some pos else FindMax r (RightLink # pos))"

fun FindTraverse :: "('k::linorder, 'v) Node \<Rightarrow> link list \<Rightarrow> 'k \<Rightarrow> pointer" where
  "FindTraverse NULL pos key' = None"
| "FindTraverse (Node l k v h rk r) pos key' =
     (case CompareFunc key' k of
        EQUAL \<Rightarrow> Some pos
      | LESS_THAN \<Rightarrow> FindTraverse l (LeftLink # pos) key'
      | GREATER_THAN \<Rightarrow> FindTraverse r (RightLink # pos) key')"

text \<open>ClosestTraverse: \<open>res\<close> is the caller's \<open>*result_node\<close>, returned updated.\<close>

fun ClosestTraverse ::
  "('k::linorder, 'v) Node \<Rightarrow> link list \<Rightarrow> 'k \<Rightarrow> pointer \<Rightarrow> COMPARE_RESULT \<Rightarrow> pointer" where
  "ClosestTraverse NULL pos key' res range' = res"
| "ClosestTraverse (Node l k v h rk r) pos key' res range' =
     (case CompareFunc key' k of
        EQUAL \<Rightarrow> Some pos
      | LESS_THAN \<Rightarrow>
          ClosestTraverse l (LeftLink # pos) key'
            (if range' = GREATER_THAN then Some pos else res) range'
      | GREATER_THAN \<Rightarrow>
          ClosestTraverse r (RightLink # pos) key'
            (if range' = LESS_THAN then Some pos else res) range')"

text \<open>GetRelativeRank: \<open>rank\<close> is the caller's rank object, returned updated (a null
  node leaves it as it is).\<close>

definition GetRelativeRank :: "int \<Rightarrow> ('k, 'v) Node \<Rightarrow> NODE_POSITION \<Rightarrow> int" where
  "GetRelativeRank rank0 node direction =
     (case node of
        NULL \<Rightarrow> rank0
      | Node l k v h rk r \<Rightarrow>
          (let r1 = rk;
               r2 = (if r \<noteq> NULL \<and> direction \<noteq> RIGHT_CHILD then r1 - rank_of r else r1)
           in if l \<noteq> NULL \<and> direction \<noteq> LEFT_CHILD then r2 - rank_of l else r2))"

text \<open>FindIndexTraverse: \<open>cur_index\<close> is passed by reference and only read by the
  callee, so it is an argument. On the way left the source reads
  \<open>node->left_child->right_child\<close> without checking \<open>node->left_child\<close>.\<close>

fun FindIndexTraverse :: "('k, 'v) Node \<Rightarrow> link list \<Rightarrow> int \<Rightarrow> int \<Rightarrow> error + pointer" where
  "FindIndexTraverse NULL pos index cur_index = Inr None"
| "FindIndexTraverse (Node l k v h rk r) pos index cur_index =
     (if index = cur_index then Inr (Some pos)
      else if index > cur_index then
        FindIndexTraverse r (RightLink # pos) index (cur_index + GetRelativeRank 0 r LEFT_CHILD)
      else
        (case l of
           NULL \<Rightarrow> Inl NullDereference
         | Node ll lk lv lh lrk lr \<Rightarrow>
             FindIndexTraverse l (LeftLink # pos) index
               ((if lr \<noteq> NULL then cur_index - rank_of lr else cur_index) - 1)))"

text \<open>The three statements that end both InsertTraverse and RemoveTraverse: recompute
  the height, recompute the rank, rebalance.\<close>

definition Retrace :: "('k, 'v) RankInfo \<Rightarrow> ('k, 'v) Node \<Rightarrow> error + ('k, 'v) Node" where
  "Retrace ri node =
     (case node of
        NULL \<Rightarrow> Inl NullDereference
      | Node l k v h rk r \<Rightarrow>
          Balance ri (UpdateRank ri (Node l k v (max (GetHeight l) (GetHeight r) + 1) rk r) l r))"

fun InsertTraverse ::
  "('k::linorder, 'v) RankInfo \<Rightarrow> ('k, 'v) Node \<Rightarrow> 'k \<Rightarrow> 'v \<Rightarrow> error + ('k, 'v) Node" where
  "InsertTraverse ri NULL key' val' = Inr (Node NULL key' val' 0 (ri key' val') NULL)"
| "InsertTraverse ri (Node l k v h rk r) key' val' =
     (if CompareFunc key' k = LESS_THAN then
        (case InsertTraverse ri l key' val' of
           Inl e \<Rightarrow> Inl e
         | Inr l' \<Rightarrow> Retrace ri (Node l' k v h rk r))
      else
        (case InsertTraverse ri r key' val' of
           Inl e \<Rightarrow> Inl e
         | Inr r' \<Rightarrow> Retrace ri (Node l k v h rk r')))"

text \<open>RemoveTraverse. In the two-children case the node takes the key, value and rank
  of the minimum of its right subtree, and that key is removed from the right subtree.\<close>

fun RemoveTraverse ::
  "('k::linorder, 'v) RankInfo \<Rightarrow> ('k, 'v) Node \<Rightarrow> 'k \<Rightarrow> error + ('k, 'v) Node" where
  "RemoveTraverse ri NULL key' = Inr NULL"
| "RemoveTraverse ri (Node l k v h rk r) key' =
     (case CompareFunc key' k of
        LESS_THAN \<Rightarrow>
          (case RemoveTraverse ri l key' of
             Inl e \<Rightarrow> Inl e
           | Inr l' \<Rightarrow> Retrace ri (Node l' k v h rk r))
      | GREATER_THAN \<Rightarrow>
          (case RemoveTraverse ri r key' of
             Inl e \<Rightarrow> Inl e
           | Inr r' \<Rightarrow> Retrace ri (Node l k v h rk r'))
      | EQUAL \<Rightarrow>
          if l \<noteq> NULL \<and> r \<noteq> NULL then
            (case FindMin r [] of
               None \<Rightarrow> Inl NullDereference
             | Some p \<Rightarrow>
                 (case deref r p of
                    NULL \<Rightarrow> Inl NullDereference
                  | Node ml mk mv mh mrk mr \<Rightarrow>
                      (case RemoveTraverse ri r mk of
                         Inl e \<Rightarrow> Inl e
                       | Inr tmp \<Rightarrow> Retrace ri (Node l mk mv h mrk tmp))))
          else if l \<noteq> NULL then Inr l
          else if r \<noteq> NULL then Inr r
          else Inr NULL)"

section \<open>Queries, merging and rebuilding\<close>

text \<open>
  QueryTraverse. The query state is the count \<open>query->total\<close> and the chain of result
  nodes hanging off \<open>result_node\<close>, in the order they were appended.
\<close>

fun QueryTraverse ::
  "('k::linorder, 'v) Node \<Rightarrow> int \<times> ('k \<times> 'v) list \<Rightarrow> ('k, 'v) FilterObject
     \<Rightarrow> int \<times> ('k \<times> 'v) list" where
  "QueryTraverse NULL q filter' = q"
| "QueryTraverse (Node l k v h rk r) q filter' =
     (if limit filter' \<le> fst q \<and> limit filter' > - 1 then q
      else if (case min_range filter' of None \<Rightarrow> False
               | Some m \<Rightarrow> CompareFunc k m = LESS_THAN)
        then QueryTraverse r q filter'
      else if (case max_range filter' of None \<Rightarrow> False
               | Some m \<Rightarrow> CompareFunc k m = GREATER_THAN)
        then QueryTraverse l q filter'
      else
        (let q1 = QueryTraverse l q filter';
             q2 = (if (limit filter' \<le> - 1 \<or> limit filter' > fst q1) \<and>
                      (case FilterFunction filter' of None \<Rightarrow> True | Some f \<Rightarrow> f k v)
                   then (fst q1 + 1, snd q1 @ [(k, v)]) else q1)
         in QueryTraverse r q2 filter'))"

text \<open>Query copies the chain into the result array, in order.\<close>

definition Query ::
  "('k::linorder, 'v) AVLRankTree \<Rightarrow> ('k, 'v) FilterObject \<Rightarrow> ('k, 'v) QueryResult" where
  "Query tree filterObject =
     (let q = QueryTraverse (root tree) (0, []) filterObject
      in \<lparr>result = snd q, total = fst q\<rparr>)"

text \<open>An array read; outside the array it fails.\<close>

definition read_at :: "'a list \<Rightarrow> int \<Rightarrow> error + 'a" where
  "read_at xs i = (if 0 \<le> i \<and> i < int (length xs) then Inr (xs ! nat i) else Inl OutOfBounds)"

text \<open>The loop of MergeTwoQueries, with its counters \<open>i\<close>, \<open>j\<close>, \<open>t\<close>; \<open>out\<close> is
  \<open>result->result[0..t)\<close>.\<close>

function MergeLoop ::
  "('k::linorder, 'v) QueryResult \<Rightarrow> ('k, 'v) QueryResult \<Rightarrow> int \<Rightarrow> int \<Rightarrow> int \<Rightarrow> int
     \<Rightarrow> ('k \<times> 'v) list \<Rightarrow> error + ('k \<times> 'v) list" where
  "MergeLoop first second result_total i j t out =
     (if t < result_total then
        (if i < total first \<and> j < total second then
           (case read_at (result first) i of
              Inl e \<Rightarrow> Inl e
            | Inr a \<Rightarrow>
                (case read_at (result second) j of
                   Inl e \<Rightarrow> Inl e
                 | Inr b \<Rightarrow>
                     if CompareFunc (fst a) (fst b) = LESS_THAN
                     then MergeLoop first second result_total (i + 1) j (t + 1) (out @ [a])
                     else MergeLoop first second result_total i (j + 1) (t + 1) (out @ [b])))
         else if j \<ge> total second then
           (case read_at (result first) i of
              Inl e \<Rightarrow> Inl e
            | Inr a \<Rightarrow> MergeLoop first second result_total (i + 1) j (t + 1) (out @ [a]))
         else
           (case read_at (result second) j of
              Inl e \<Rightarrow> Inl e
            | Inr b \<Rightarrow> MergeLoop first second result_total i (j + 1) (t + 1) (out @ [b])))
      else Inr out)"
  by pat_completeness auto
termination
  by (relation "measure (\<lambda>(first, second, result_total, i, j, t, out). nat (result_total - t))")
    auto

definition MergeTwoQueries ::
  "('k::linorder, 'v) QueryResult \<Rightarrow> ('k, 'v) QueryResult
     \<Rightarrow> error + ('k, 'v) QueryResult option" where
  "MergeTwoQueries first second =
     (let result_total = total first + total second
      in if result_total = 0 then Inr None
         else (case MergeLoop first second result_total 0 0 0 [] of
                 Inl e \<Rightarrow> Inl e
               | Inr out \<Rightarrow> Inr (Some \<lparr>result = out, total = result_total\<rparr>)))"

text \<open>The quotient \<open>(start + end) / 2\<close> of C++, which truncates toward zero.\<close>

definition cpp_div2 :: "int \<Rightarrow> int" where
  "cpp_div2 x = (if x \<ge> 0 then x div 2 else - ((- x) div 2))"

text \<open>
  TreeFromQuery. \<open>pos\<close> is the position the new node will have; \<open>mm\<close> is the pair
  (\<open>this->min_node\<close>, \<open>this->max_node\<close>), returned updated. The assignment of
  \<open>this->root\<close> at the first call is made by the constructor.
\<close>

function TreeFromQuery ::
  "('k, 'v) RankInfo \<Rightarrow> ('k, 'v) QueryResult \<Rightarrow> int \<Rightarrow> int \<Rightarrow> link list \<Rightarrow> pointer \<times> pointer
     \<Rightarrow> error + (('k, 'v) Node \<times> pointer \<times> pointer)" where
  "TreeFromQuery ri query start end' pos mm =
     (if start > end' then Inr (NULL, mm)
      else
        (let middle = cpp_div2 (start + end')
         in case read_at (result query) middle of
              Inl e \<Rightarrow> Inl e
            | Inr kv \<Rightarrow>
                (let mm1 = (if middle = 0 then (Some pos, snd mm) else mm);
                     mm2 = (if middle = total query - 1 then (fst mm1, Some pos) else mm1)
                 in case TreeFromQuery ri query start (middle - 1) (LeftLink # pos) mm2 of
                      Inl e \<Rightarrow> Inl e
                    | Inr (l, mm3) \<Rightarrow>
                        (case TreeFromQuery ri query (middle + 1) end' (RightLink # pos) mm3 of
                           Inl e \<Rightarrow> Inl e
                         | Inr (r, mm4) \<Rightarrow>
                             Inr (UpdateRank ri
                                    (Node l (fst kv) (snd kv)
                                       (max (GetHeight l) (GetHeight r) + 1)
                                       (ri (fst kv) (snd kv)) r) l r,
                                  mm4)))))"
  by pat_completeness auto
termination
  by (relation "measure (\<lambda>(ri, query, start, end', pos, mm). nat (end' - start + 1))")
    (auto simp: cpp_div2_def)

text \<open>GetMostLowerCommonNode reads only the keys of \<open>node1\<close> and \<open>node2\<close>.\<close>

fun GetMostLowerCommonNode ::
  "('k::linorder, 'v) Node \<Rightarrow> link list \<Rightarrow> 'k \<Rightarrow> 'k \<Rightarrow> pointer" where
  "GetMostLowerCommonNode NULL pos key1 key2 = None"
| "GetMostLowerCommonNode (Node l k v h rk r) pos key1 key2 =
     (if CompareFunc k key1 = GREATER_THAN \<and> CompareFunc k key2 = GREATER_THAN
        then GetMostLowerCommonNode l (LeftLink # pos) key1 key2
      else if CompareFunc k key1 = LESS_THAN \<and> CompareFunc k key2 = LESS_THAN
        then GetMostLowerCommonNode r (RightLink # pos) key1 key2
      else Some pos)"

text \<open>
  CollectRankTraverse climbs from a node through \<open>parent\<close> until it meets a node whose
  key equals the key of \<open>mlc\<close>. \<open>rt\<close> is the root the positions refer to, \<open>pos\<close> the
  position of \<open>node\<close>; of \<open>mlc\<close> and \<open>relative_node\<close> only the keys are read. The
  parent of the root is null, and the next call dereferences it.
\<close>

fun CollectRankTraverse ::
  "('k::linorder, 'v) Node \<Rightarrow> 'k \<Rightarrow> link list \<Rightarrow> 'k \<Rightarrow> int \<Rightarrow> NODE_POSITION \<Rightarrow> error + int" where
  "CollectRankTraverse rt mlc_key pos relative_key rank0 direction =
     (case deref rt pos of
        NULL \<Rightarrow> Inl NullDereference
      | Node l k v h rk r \<Rightarrow>
          if CompareFunc mlc_key k = EQUAL then Inr rank0
          else
            (let rank1 =
               (if direction = RIGHT_CHILD then
                  (if CompareFunc k relative_key = LESS_THAN then rank0
                   else rank0 + GetRelativeRank 0 (Node l k v h rk r) RIGHT_CHILD)
                else
                  (if CompareFunc k relative_key = GREATER_THAN then rank0
                   else rank0 + GetRelativeRank 0 (Node l k v h rk r) LEFT_CHILD))
             in case pos of
                  [] \<Rightarrow> Inl NullDereference
                | d # ds \<Rightarrow> CollectRankTraverse rt mlc_key ds relative_key rank1 direction))"

fun GetIndexOfKeyTraverse :: "('k::linorder, 'v) Node \<Rightarrow> 'k \<Rightarrow> int" where
  "GetIndexOfKeyTraverse NULL key' = - 1"
| "GetIndexOfKeyTraverse (Node l k v h rk r) key' =
     (case CompareFunc key' k of
        EQUAL \<Rightarrow> GetRelativeRank 0 (Node l k v h rk r) LEFT_CHILD - 1
      | LESS_THAN \<Rightarrow> GetIndexOfKeyTraverse l key'
      | GREATER_THAN \<Rightarrow>
          GetRelativeRank 0 (Node l k v h rk r) LEFT_CHILD + GetIndexOfKeyTraverse r key')"

section \<open>Public methods\<close>

definition AVLRankTree_empty :: "('k, 'v) AVLRankTree" where
  "AVLRankTree_empty = \<lparr>size_field = 0, root = NULL, max_node = None, min_node = None\<rparr>"

definition GetSize :: "('k, 'v) AVLRankTree \<Rightarrow> int" where
  "GetSize tree = size_field tree"

text \<open>
  The copy constructor. The new object starts with the size of \<open>tree\<close> and a null root;
  when \<open>tree\<close> is not empty it runs \<open>this->Query()\<close>, the query of the object under
  construction, and rebuilds from that result. The constructor ends with the statement
  \<open>delete query\<close>, whose operand is a QueryResult object and not a pointer: that
  statement is ill-formed, so the constructor as shipped is accepted by a compiler only
  as long as it is never instantiated. The definition is the constructor with that one
  statement left out, which is all of its behaviour that can be run; nothing before
  that statement depends on it.
\<close>

definition AVLRankTree_copy ::
  "('k::linorder, 'v) RankInfo \<Rightarrow> ('k, 'v) AVLRankTree \<Rightarrow> error + ('k, 'v) AVLRankTree" where
  "AVLRankTree_copy ri tree =
     (let this = \<lparr>size_field = GetSize tree, root = NULL, max_node = None, min_node = None\<rparr>
      in if root tree = NULL then Inr this
         else
           (let query = Query this FilterObject_default
            in case TreeFromQuery ri query 0 (total query - 1) [] (min_node this, max_node this) of
                 Inl e \<Rightarrow> Inl e
               | Inr (t, mn, mx) \<Rightarrow> Inr (this\<lparr>root := t, max_node := mx, min_node := mn\<rparr>)))"

text \<open>The combine constructor; a null result of MergeTwoQueries is dereferenced by
  \<open>query->total\<close>.\<close>

definition AVLRankTree_merge ::
  "('k::linorder, 'v) RankInfo \<Rightarrow> ('k, 'v) AVLRankTree \<Rightarrow> ('k, 'v) AVLRankTree
     \<Rightarrow> error + ('k, 'v) AVLRankTree" where
  "AVLRankTree_merge ri first_tree second_tree =
     (let this = \<lparr>size_field = size_field first_tree + size_field second_tree, root = NULL,
                  max_node = None, min_node = None\<rparr>
      in if size_field this = 0 then Inr this
         else
           (let first_query = Query first_tree FilterObject_default;
                second_query = Query second_tree FilterObject_default
            in case MergeTwoQueries first_query second_query of
                 Inl e \<Rightarrow> Inl e
               | Inr None \<Rightarrow> Inl NullDereference
               | Inr (Some query) \<Rightarrow>
                   (case TreeFromQuery ri query 0 (total query - 1) []
                           (min_node this, max_node this) of
                      Inl e \<Rightarrow> Inl e
                    | Inr (t, mn, mx) \<Rightarrow>
                        Inr (this\<lparr>root := t, max_node := mx, min_node := mn\<rparr>))))"

definition GetIndexOfKey :: "('k::linorder, 'v) AVLRankTree \<Rightarrow> 'k \<Rightarrow> int" where
  "GetIndexOfKey tree key' = GetIndexOfKeyTraverse (root tree) key'"

text \<open>The pair built from a node pointer, when the pointer is not null.\<close>

definition KeyValuePair_at ::
  "('k, 'v) Node \<Rightarrow> pointer \<Rightarrow> error + ('k \<times> 'v) option" where
  "KeyValuePair_at rt ptr =
     (case ptr of
        None \<Rightarrow> Inr None
      | Some p \<Rightarrow>
          (case deref rt p of
             NULL \<Rightarrow> Inl NullDereference
           | Node l k v h rk r \<Rightarrow> Inr (Some (k, v))))"

definition GetMax :: "('k, 'v) AVLRankTree \<Rightarrow> error + ('k \<times> 'v) option" where
  "GetMax tree = KeyValuePair_at (root tree) (max_node tree)"

definition GetMin :: "('k, 'v) AVLRankTree \<Rightarrow> error + ('k \<times> 'v) option" where
  "GetMin tree = KeyValuePair_at (root tree) (min_node tree)"

definition Find :: "('k::linorder, 'v) AVLRankTree \<Rightarrow> 'k \<Rightarrow> error + ('k \<times> 'v) option" where
  "Find tree key' = KeyValuePair_at (root tree) (FindTraverse (root tree) [] key')"

definition FindIndex :: "('k, 'v) AVLRankTree \<Rightarrow> int \<Rightarrow> error + ('k \<times> 'v) option" where
  "FindIndex tree index =
     (if index < 0 \<or> index \<ge> size_field tree then Inl OutOfRange
      else
        (let res_index = GetRelativeRank 0 (root tree) LEFT_CHILD
         in case FindIndexTraverse (root tree) [] (index + 1) res_index of
              Inl e \<Rightarrow> Inl e
            | Inr result_node \<Rightarrow> KeyValuePair_at (root tree) result_node))"

definition Closest ::
  "('k::linorder, 'v) AVLRankTree \<Rightarrow> 'k \<Rightarrow> COMPARE_RESULT \<Rightarrow> error + ('k \<times> 'v) option" where
  "Closest tree key' range' =
     (if range' = EQUAL then Find tree key'
      else KeyValuePair_at (root tree) (ClosestTraverse (root tree) [] key' None range'))"

definition Insert ::
  "('k::linorder, 'v) RankInfo \<Rightarrow> ('k, 'v) AVLRankTree \<Rightarrow> 'k \<Rightarrow> 'v
     \<Rightarrow> error + ('k, 'v) AVLRankTree" where
  "Insert ri tree key' val' =
     (case InsertTraverse ri (root tree) key' val' of
        Inl e \<Rightarrow> Inl e
      | Inr rt \<Rightarrow>
          Inr \<lparr>size_field = size_field tree + 1, root = rt,
               max_node = FindMax rt [], min_node = FindMin rt []\<rparr>)"

text \<open>Remove returns its boolean and the tree after the call.\<close>

definition Remove ::
  "('k::linorder, 'v) RankInfo \<Rightarrow> ('k, 'v) AVLRankTree \<Rightarrow> 'k
     \<Rightarrow> error + (bool \<times> ('k, 'v) AVLRankTree)" where
  "Remove ri tree key' =
     (case Find tree key' of
        Inl e \<Rightarrow> Inl e
      | Inr None \<Rightarrow> Inr (False, tree)
      | Inr (Some found) \<Rightarrow>
          (case RemoveTraverse ri (root tree) key' of
             Inl e \<Rightarrow> Inl e
           | Inr rt \<Rightarrow>
               Inr (True,
                    \<lparr>size_field = size_field tree - 1, root = rt,
                     max_node = FindMax rt [], min_node = FindMin rt []\<rparr>)))"

text \<open>
  CollectRank, in three parts. \<open>CollectRank_paths\<close> is the end of the method, from the
  call of GetMostLowerCommonNode on; \<open>CollectRank_limit\<close> is the block under
  \<open>filter.limit > 0\<close>, which may move one boundary and returns the two boundaries;
  \<open>CollectRank\<close> is the method. A boundary is a pointer; its key is read through
  \<open>deref\<close>. The sums \<open>max_index - filter.limit + 1\<close>,
  \<open>min_index + filter.limit - 1\<close> and \<open>index + 1\<close> are computed in
  \<open>long long\<close>, left to right; \<open>signed_ll\<close> gives each intermediate value when
  it fits and the error SignedOverflow when it does not.
\<close>

definition own_rank :: "('k, 'v) Node \<Rightarrow> link list \<Rightarrow> error + int" where
  "own_rank rt p =
     (case deref rt p of
        NULL \<Rightarrow> Inl NullDereference
      | Node l k v h rk r \<Rightarrow> Inr (GetRelativeRank 0 (Node l k v h rk r) ROOT))"

definition key_at :: "('k, 'v) Node \<Rightarrow> link list \<Rightarrow> error + 'k" where
  "key_at rt p =
     (case deref rt p of
        NULL \<Rightarrow> Inl NullDereference
      | Node l k v h rk r \<Rightarrow> Inr k)"

definition CollectRank_paths ::
  "('k::linorder, 'v) Node \<Rightarrow> link list \<Rightarrow> link list \<Rightarrow> error + int" where
  "CollectRank_paths rt max' min' =
     (case key_at rt max' of
        Inl e \<Rightarrow> Inl e
      | Inr max_key \<Rightarrow>
     (case key_at rt min' of
        Inl e \<Rightarrow> Inl e
      | Inr min_key \<Rightarrow>
     (case GetMostLowerCommonNode rt [] min_key max_key of
        None \<Rightarrow> Inl NullDereference
      | Some mlc \<Rightarrow>
     (case key_at rt mlc of
        Inl e \<Rightarrow> Inl e
      | Inr mlc_key \<Rightarrow>
     (case CollectRankTraverse rt mlc_key max' max_key 0 LEFT_CHILD of
        Inl e \<Rightarrow> Inl e
      | Inr rank1 \<Rightarrow>
     (case CollectRankTraverse rt mlc_key min' min_key rank1 RIGHT_CHILD of
        Inl e \<Rightarrow> Inl e
      | Inr rank2 \<Rightarrow>
     (case own_rank rt mlc of
        Inl e \<Rightarrow> Inl e
      | Inr tmp \<Rightarrow> Inr (rank2 + tmp))))))))"

definition signed_ll :: "int \<Rightarrow> error + int" where
  "signed_ll x = (if - (2 ^ 63) \<le> x \<and> x < 2 ^ 63 then Inr x else Inl SignedOverflow)"

definition CollectRank_limit ::
  "('k::linorder, 'v) AVLRankTree \<Rightarrow> ('k, 'v) FilterObject \<Rightarrow> link list \<Rightarrow> link list
     \<Rightarrow> error + (pointer \<times> pointer)" where
  "CollectRank_limit tree filter' max' min' =
     (case key_at (root tree) max' of
        Inl e \<Rightarrow> Inl e
      | Inr max_key \<Rightarrow>
     (case key_at (root tree) min' of
        Inl e \<Rightarrow> Inl e
      | Inr min_key \<Rightarrow>
         (let res_index = GetRelativeRank 0 (root tree) LEFT_CHILD;
              max_index = GetIndexOfKey tree max_key;
              min_index = GetIndexOfKey tree min_key
          in if reverse filter' then
               (case signed_ll (max_index - limit filter') of
                  Inl e \<Rightarrow> Inl e
                | Inr d \<Rightarrow>
               (case signed_ll (d + 1) of
                  Inl e \<Rightarrow> Inl e
                | Inr index \<Rightarrow>
                   if index \<ge> min_index then
                     (case signed_ll (index + 1) of
                        Inl e \<Rightarrow> Inl e
                      | Inr index1 \<Rightarrow>
                     (case FindIndexTraverse (root tree) [] index1 res_index of
                        Inl e \<Rightarrow> Inl e
                      | Inr p \<Rightarrow> Inr (Some max', p)))
                   else Inr (Some max', Some min')))
             else
               (case signed_ll (min_index + limit filter') of
                  Inl e \<Rightarrow> Inl e
                | Inr d \<Rightarrow>
               (case signed_ll (d - 1) of
                  Inl e \<Rightarrow> Inl e
                | Inr index \<Rightarrow>
                   if index \<le> max_index then
                     (case signed_ll (index + 1) of
                        Inl e \<Rightarrow> Inl e
                      | Inr index1 \<Rightarrow>
                     (case FindIndexTraverse (root tree) [] index1 res_index of
                        Inl e \<Rightarrow> Inl e
                      | Inr p \<Rightarrow> Inr (p, Some min')))
                   else Inr (Some max', Some min'))))))"

definition CollectRank ::
  "('k::linorder, 'v) AVLRankTree \<Rightarrow> ('k, 'v) FilterObject \<Rightarrow> error + int" where
  "CollectRank tree filter' =
     (let max1 = (case max_range filter' of
                    None \<Rightarrow> max_node tree
                  | Some m \<Rightarrow>
                      (case ClosestTraverse (root tree) [] m None LESS_THAN of
                         None \<Rightarrow> max_node tree
                       | Some tmp_max \<Rightarrow> Some tmp_max));
          min1 = (case min_range filter' of
                    None \<Rightarrow> min_node tree
                  | Some m \<Rightarrow>
                      (case ClosestTraverse (root tree) [] m None GREATER_THAN of
                         None \<Rightarrow> min_node tree
                       | Some tmp_min \<Rightarrow> Some tmp_min))
      in case (max1, min1) of
           (Some max', Some min') \<Rightarrow>
             (case key_at (root tree) max' of
                Inl e \<Rightarrow> Inl e
              | Inr max_key \<Rightarrow>
             (case key_at (root tree) min' of
                Inl e \<Rightarrow> Inl e
              | Inr min_key \<Rightarrow>
                 if CompareFunc max_key min_key = EQUAL then own_rank (root tree) max'
                 else if limit filter' > 0 then
                   (case CollectRank_limit tree filter' max' min' of
                      Inl e \<Rightarrow> Inl e
                    | Inr (Some max2, Some min2) \<Rightarrow>
                        (case key_at (root tree) max2 of
                           Inl e \<Rightarrow> Inl e
                         | Inr max_key2 \<Rightarrow>
                        (case key_at (root tree) min2 of
                           Inl e \<Rightarrow> Inl e
                         | Inr min_key2 \<Rightarrow>
                            if CompareFunc max_key2 min_key2 = EQUAL
                            then own_rank (root tree) max2
                            else CollectRank_paths (root tree) max2 min2))
                    | Inr other \<Rightarrow> Inr 0)
                 else CollectRank_paths (root tree) max' min'))
         | other \<Rightarrow> Inr 0)"

section \<open>Histories of a tree object\<close>

text \<open>
  A tree object comes from a constructor and a sequence of calls of the mutating
  methods. \<open>construct\<close> runs such a history: the empty constructor, the combine
  constructor on two objects with histories of their own, Insert and Remove.
\<close>

datatype ('k, 'v) history =
    Empty
  | Combined "('k, 'v) history" "('k, 'v) history"
  | Inserted "('k, 'v) history" 'k 'v
  | Removed "('k, 'v) history" 'k

fun construct ::
  "('k::linorder, 'v) RankInfo \<Rightarrow> ('k, 'v) history \<Rightarrow> error + ('k, 'v) AVLRankTree" where
  "construct ri Empty = Inr AVLRankTree_empty"
| "construct ri (Combined h1 h2) =
     (case construct ri h1 of
        Inl e \<Rightarrow> Inl e
      | Inr t1 \<Rightarrow>
          (case construct ri h2 of
             Inl e \<Rightarrow> Inl e
           | Inr t2 \<Rightarrow> AVLRankTree_merge ri t1 t2))"
| "construct ri (Inserted h k v) =
     (case construct ri h of
        Inl e \<Rightarrow> Inl e
      | Inr t \<Rightarrow> Insert ri t k v)"
| "construct ri (Removed h k) =
     (case construct ri h of
        Inl e \<Rightarrow> Inl e
      | Inr t \<Rightarrow> (case Remove ri t k of Inl e \<Rightarrow> Inl e | Inr (b, t') \<Rightarrow> Inr t'))"

section \<open>Observations and invariants\<close>

text \<open>The entries of a subtree in symmetric order, its keys, and its number of nodes.\<close>

fun inorder :: "('k, 'v) Node \<Rightarrow> ('k \<times> 'v) list" where
  "inorder NULL = []"
| "inorder (Node l k v h rk r) = inorder l @ (k, v) # inorder r"

definition keys :: "('k, 'v) Node \<Rightarrow> 'k list" where
  "keys t = map fst (inorder t)"

fun count_nodes :: "('k, 'v) Node \<Rightarrow> int" where
  "count_nodes NULL = 0"
| "count_nodes (Node l k v h rk r) = count_nodes l + 1 + count_nodes r"

text \<open>
  Invariant 1 as the specification words it (left keys less, right keys greater or
  equal), and its non-strict form (left keys less or equal).
\<close>

fun bst_ties_right :: "('k::linorder, 'v) Node \<Rightarrow> bool" where
  "bst_ties_right NULL = True"
| "bst_ties_right (Node l k v h rk r) =
     (bst_ties_right l \<and> bst_ties_right r \<and>
      (\<forall>x \<in> set (keys l). x < k) \<and> (\<forall>x \<in> set (keys r). k \<le> x))"

fun bst_weak :: "('k::linorder, 'v) Node \<Rightarrow> bool" where
  "bst_weak NULL = True"
| "bst_weak (Node l k v h rk r) =
     (bst_weak l \<and> bst_weak r \<and>
      (\<forall>x \<in> set (keys l). x \<le> k) \<and> (\<forall>x \<in> set (keys r). k \<le> x))"

text \<open>Invariants 2 and 3, on the stored heights (an absent child counts -1).\<close>

fun balanced :: "('k, 'v) Node \<Rightarrow> bool" where
  "balanced NULL = True"
| "balanced (Node l k v h rk r) =
     (balanced l \<and> balanced r \<and> \<bar>GetHeight l - GetHeight r\<bar> \<le> 1)"

fun heights_ok :: "('k, 'v) Node \<Rightarrow> bool" where
  "heights_ok NULL = True"
| "heights_ok (Node l k v h rk r) =
     (heights_ok l \<and> heights_ok r \<and> h = 1 + max (GetHeight l) (GetHeight r))"

text \<open>Invariant 4: the stored rank is the node's contribution combined with the ranks
  of its children (an absent child contributes the empty rank).\<close>

fun ranks_ok :: "('k, 'v) RankInfo \<Rightarrow> ('k, 'v) Node \<Rightarrow> bool" where
  "ranks_ok ri NULL = True"
| "ranks_ok ri (Node l k v h rk r) =
     (ranks_ok ri l \<and> ranks_ok ri r \<and> rk = ri k v + rank_of l + rank_of r)"

text \<open>Invariant 5.\<close>

definition size_ok :: "('k, 'v) AVLRankTree \<Rightarrow> bool" where
  "size_ok tree = (size_field tree = count_nodes (root tree))"

text \<open>Invariant 6: a cache is null exactly when the root is null, and otherwise names a
  node whose key bounds every key of the tree.\<close>

definition is_min_node :: "('k::linorder, 'v) Node \<Rightarrow> pointer \<Rightarrow> bool" where
  "is_min_node rt ptr =
     (case ptr of
        None \<Rightarrow> rt = NULL
      | Some p \<Rightarrow>
          (case deref rt p of
             NULL \<Rightarrow> False
           | Node l k v h rk r \<Rightarrow> \<forall>x \<in> set (keys rt). k \<le> x))"

definition is_max_node :: "('k::linorder, 'v) Node \<Rightarrow> pointer \<Rightarrow> bool" where
  "is_max_node rt ptr =
     (case ptr of
        None \<Rightarrow> rt = NULL
      | Some p \<Rightarrow>
          (case deref rt p of
             NULL \<Rightarrow> False
           | Node l k v h rk r \<Rightarrow> \<forall>x \<in> set (keys rt). x \<le> k))"

definition caches_ok :: "('k::linorder, 'v) AVLRankTree \<Rightarrow> bool" where
  "caches_ok tree =
     (is_min_node (root tree) (min_node tree) \<and> is_max_node (root tree) (max_node tree))"

text \<open>The six invariants as the specification lists them, and with invariant 1 in its
  non-strict form.\<close>

definition invariants_spec :: "('k::linorder, 'v) RankInfo \<Rightarrow> ('k, 'v) AVLRankTree \<Rightarrow> bool" where
  "invariants_spec ri tree =
     (bst_ties_right (root tree) \<and> balanced (root tree) \<and> heights_ok (root tree) \<and>
      ranks_ok ri (root tree) \<and> size_ok tree \<and> caches_ok tree)"

definition invariants :: "('k::linorder, 'v) RankInfo \<Rightarrow> ('k, 'v) AVLRankTree \<Rightarrow> bool" where
  "invariants ri tree =
     (bst_weak (root tree) \<and> balanced (root tree) \<and> heights_ok (root tree) \<and>
      ranks_ok ri (root tree) \<and> size_ok tree \<and> caches_ok tree)"

section \<open>Concrete trees\<close>

text \<open>Histories and the tree objects they produce, used to evaluate the methods.\<close>

definition three_equal_keys :: "(int, string) history" where
  "three_equal_keys = Inserted (Inserted (Inserted Empty 1 ''a'') 1 ''b'') 1 ''c''"

definition three_equal_keys_tree :: "(int, string) AVLRankTree" where
  "three_equal_keys_tree =
     \<lparr>size_field = 3,
      root = Node (Node NULL 1 ''a'' 0 1 NULL) 1 ''b'' 1 3 (Node NULL 1 ''c'' 0 1 NULL),
      max_node = Some [RightLink], min_node = Some [LeftLink]\<rparr>"

definition one_entry_tree :: "(int, string) AVLRankTree" where
  "one_entry_tree =
     \<lparr>size_field = 1, root = Node NULL 1 ''a'' 0 1 NULL, max_node = Some [], min_node = Some []\<rparr>"

definition keys_1_3_5 :: "(int, string) AVLRankTree" where
  "keys_1_3_5 =
     \<lparr>size_field = 3,
      root = Node (Node NULL 1 ''a'' 0 1 NULL) 3 ''b'' 1 3 (Node NULL 5 ''c'' 0 1 NULL),
      max_node = Some [RightLink], min_node = Some [LeftLink]\<rparr>"

definition two_equal_keys_tree :: "(int, string) AVLRankTree" where
  "two_equal_keys_tree =
     \<lparr>size_field = 2,
      root = Node NULL 1 ''a'' 1 2 (Node NULL 1 ''b'' 0 1 NULL),
      max_node = Some [RightLink], min_node = Some []\<rparr>"

definition five_entries :: "(int, string) history" where
  "five_entries =
     Inserted (Inserted (Inserted (Inserted (Inserted Empty 1 ''r'') 0 ''z'') 2 ''a'') 2 ''b'') 2 ''c''"

definition five_entries_tree :: "(int, string) AVLRankTree" where
  "five_entries_tree =
     \<lparr>size_field = 5,
      root = Node (Node NULL 0 ''z'' 0 1 NULL) 1 ''r'' 2 5
               (Node (Node NULL 2 ''a'' 0 1 NULL) 2 ''b'' 1 3 (Node NULL 2 ''c'' 0 1 NULL)),
      max_node = Some [RightLink, RightLink], min_node = Some [LeftLink]\<rparr>"

definition five_entries_removed :: "(int, string) AVLRankTree" where
  "five_entries_removed =
     \<lparr>size_field = 4,
      root = Node (Node NULL 0 ''z'' 0 1 NULL) 2 ''a'' 2 4
               (Node (Node NULL 2 ''a'' 0 1 NULL) 2 ''c'' 1 2 NULL),
      max_node = Some [RightLink], min_node = Some [LeftLink]\<rparr>"

text \<open>
  A rank class other than the count: the contribution of an entry is its key. It has the
  members of DefaultRank, with the constructor from a key and a value storing the key.
\<close>

definition KeyRank :: "(int, string) RankInfo" where
  "KeyRank k v = k"

definition keys_2_4_6 :: "(int, string) AVLRankTree" where
  "keys_2_4_6 =
     \<lparr>size_field = 3,
      root = Node (Node NULL 2 ''a'' 0 2 NULL) 4 ''b'' 1 12 (Node NULL 6 ''c'' 0 6 NULL),
      max_node = Some [RightLink], min_node = Some [LeftLink]\<rparr>"

definition keys_minus_1_1 :: "(int, string) AVLRankTree" where
  "keys_minus_1_1 =
     \<lparr>size_field = 2,
      root = Node NULL (- 1) ''a'' 1 0 (Node NULL 1 ''b'' 0 1 NULL),
      max_node = Some [RightLink], min_node = Some []\<rparr>"

section \<open>Notions used to state the properties\<close>

text \<open>
  The ascending two-pointer merge of two sequences by the comparator, on lists: the
  head of the first sequence is taken when it compares less than the head of the second,
  the head of the second otherwise; when one sequence is exhausted the rest of the other
  follows.
\<close>

fun two_pointer_merge ::
  "('k::linorder \<times> 'v) list \<Rightarrow> ('k \<times> 'v) list \<Rightarrow> ('k \<times> 'v) list" where
  "two_pointer_merge [] ys = ys"
| "two_pointer_merge (x # xs) [] = x # xs"
| "two_pointer_merge (x # xs) (y # ys) =
     (if CompareFunc (fst x) (fst y) = LESS_THAN
      then x # two_pointer_merge xs (y # ys)
      else y # two_pointer_merge (x # xs) ys)"

text \<open>The size bounds of a subtree of stored height \<open>h\<close> with \<open>n\<close> nodes:
  \<open>n + 1 \<le> 2 ^ (h + 1)\<close>, and \<open>2 ^ h \<le> n\<close> when it is not empty.\<close>

definition size_bounds :: "('k, 'v) Node \<Rightarrow> bool" where
  "size_bounds t =
     (count_nodes t + 1 \<le> 2 ^ nat (GetHeight t + 1) \<and>
      (t \<noteq> NULL \<longrightarrow> 2 ^ nat (GetHeight t) \<le> count_nodes t))"

text \<open>
  An optional entry is the floor entry of a key in a subtree when it is an entry of the
  subtree whose key is the greatest key at most the given key, and is absent when every
  key of the subtree is greater; the ceiling entry is the mirror notion.
\<close>

definition is_floor_entry ::
  "('k::linorder, 'v) Node \<Rightarrow> 'k \<Rightarrow> ('k \<times> 'v) option \<Rightarrow> bool" where
  "is_floor_entry t key' res =
     (case res of
        None \<Rightarrow> \<forall>x \<in> set (keys t). key' < x
      | Some (k, v) \<Rightarrow>
          (k, v) \<in> set (inorder t) \<and> k \<le> key' \<and> (\<forall>x \<in> set (keys t). x \<le> key' \<longrightarrow> x \<le> k))"

definition is_ceiling_entry ::
  "('k::linorder, 'v) Node \<Rightarrow> 'k \<Rightarrow> ('k \<times> 'v) option \<Rightarrow> bool" where
  "is_ceiling_entry t key' res =
     (case res of
        None \<Rightarrow> \<forall>x \<in> set (keys t). x < key'
      | Some (k, v) \<Rightarrow>
          (k, v) \<in> set (inorder t) \<and> key' \<le> k \<and> (\<forall>x \<in> set (keys t). key' \<le> x \<longrightarrow> k \<le> x))"

text \<open>A search tree with pairwise distinct keys: left keys less, right keys greater.\<close>

fun bst_strict :: "('k::linorder, 'v) Node \<Rightarrow> bool" where
  "bst_strict NULL = True"
| "bst_strict (Node l k v h rk r) =
     (bst_strict l \<and> bst_strict r \<and>
      (\<forall>x \<in> set (keys l). x < k) \<and> (\<forall>x \<in> set (keys r). k < x))"

text \<open>An entry is accepted by a filter when its key is within the inclusive bounds that
  are set and the predicate, when set, holds of it.\<close>

definition accepts :: "('k::linorder, 'v) FilterObject \<Rightarrow> 'k \<times> 'v \<Rightarrow> bool" where
  "accepts f e =
     ((case min_range f of None \<Rightarrow> True | Some m \<Rightarrow> \<not> fst e < m) \<and>
      (case max_range f of None \<Rightarrow> True | Some m \<Rightarrow> \<not> m < fst e) \<and>
      (case FilterFunction f of None \<Rightarrow> True | Some p \<Rightarrow> p (fst e) (snd e)))"

section \<open>The methods on concrete trees\<close>

text \<open>
  C3 (copy constructor). The copy of the tree holding the single entry (1, a) keeps the
  size 1 and has a null root: its query result is empty while the source's is [(1, a)].
\<close>

theorem C3_copy_of_one_entry_tree:
  "construct DefaultRank (Inserted Empty 1 ''a'') = Inr one_entry_tree \<and>
   AVLRankTree_copy DefaultRank one_entry_tree =
     Inr \<lparr>size_field = 1, root = NULL, max_node = None, min_node = None\<rparr> \<and>
   result (Query one_entry_tree FilterObject_default) = [(1, ''a'')] \<and>
   result (Query \<lparr>size_field = 1, root = NULL, max_node = None, min_node = None\<rparr>
             FilterObject_default) = ([] :: (int \<times> string) list)"
  by code_simp

text \<open>
  C4 (GetIndexOfKey on an absent key). In the tree holding the single key 1, the absent
  key 2 gets index 0, not -1: the search turns right once and adds the relative rank 1 to
  the -1 of the null node.
\<close>

theorem C4_absent_key_above:
  "construct DefaultRank (Inserted Empty 1 ''a'') = Inr one_entry_tree \<and>
   invariants_spec DefaultRank one_entry_tree \<and>
   keys (root one_entry_tree) = [1] \<and>
   GetIndexOfKey one_entry_tree 2 = 0"
  by code_simp

text \<open>
  C6 (Query with limit and reverse). With keys 1, 3, 5, limit 2 and the reverse flag
  set, Query returns the first two entries, not the last two.
\<close>

theorem C6_reverse_limit_two:
  "construct DefaultRank (Inserted (Inserted (Inserted Empty 1 ''a'') 3 ''b'') 5 ''c'')
     = Inr keys_1_3_5 \<and>
   result (Query keys_1_3_5 FilterObject_default) = [(1, ''a''), (3, ''b''), (5, ''c'')] \<and>
   Query keys_1_3_5 (FilterObject_default\<lparr>limit := 2, reverse := True\<rparr>)
     = \<lparr>result = [(1, ''a''), (3, ''b'')], total = 2\<rparr>"
  by code_simp

section \<open>Basic facts\<close>

declare MergeLoop.simps [simp del]
declare TreeFromQuery.simps [simp del]
declare CollectRankTraverse.simps [simp del]

lemma CompareFunc_LESS [simp]: "(CompareFunc a b = LESS_THAN) = (a < b)"
  by (simp add: CompareFunc_def)

lemma CompareFunc_GREATER [simp]: "(CompareFunc a b = GREATER_THAN) = (b < a)"
  by (cases a b rule: linorder_cases) (simp_all add: CompareFunc_def)

lemma CompareFunc_EQUAL [simp]: "(CompareFunc a b = EQUAL) = (a = b)"
  by (cases a b rule: linorder_cases) (simp_all add: CompareFunc_def)

lemma CompareFunc_cases:
  "CompareFunc a b = (if a < b then LESS_THAN else if b < a then GREATER_THAN else EQUAL)"
  by (simp add: CompareFunc_def)

lemma rank_of_NULL [simp]: "rank_of NULL = 0"
  by (simp add: rank_of_def)

lemma rank_of_Node [simp]: "rank_of (Node l k v h rk r) = rk"
  by (simp add: rank_of_def)

lemma UpdateRank_Node [simp]:
  "UpdateRank ri (Node l k v h rk r) c1 c2 = Node l k v h (ri k v + rank_of c1 + rank_of c2) r"
  by (simp add: UpdateRank_def)

lemma GetHeight_NULL [simp]: "GetHeight NULL = - 1"
  by (simp add: GetHeight_def)

lemma GetHeight_Node [simp]: "GetHeight (Node l k v h rk r) = h"
  by (simp add: GetHeight_def)

lemma GetRelativeRank_NULL [simp]: "GetRelativeRank x NULL d = x"
  by (simp add: GetRelativeRank_def)

lemma GetRelativeRank_Node:
  "GetRelativeRank x (Node l k v h rk r) d =
     rk - (if d \<noteq> RIGHT_CHILD then rank_of r else 0) - (if d \<noteq> LEFT_CHILD then rank_of l else 0)"
  by (cases l; cases r) (simp_all add: GetRelativeRank_def)

lemma follow_NULL [simp]: "follow NULL ps = NULL"
  by (cases ps) simp_all

lemma follow_append: "follow t (ps @ qs) = follow (follow t ps) qs"
proof (induction t ps rule: follow.induct)
  case (2 d ds)
  then show ?case by simp
qed simp_all

lemma deref_Nil [simp]: "deref t [] = t"
  by (simp add: deref_def)

lemma deref_Cons: "deref t (d # p) = follow (deref t p) [d]"
  by (simp add: deref_def follow_append)

lemma deref_append: "deref t (q @ p) = deref (deref t p) q"
  by (simp add: deref_def follow_append)

lemma count_nodes_length: "count_nodes t = int (length (inorder t))"
  by (induction t) simp_all

lemma count_nodes_nonneg [simp]: "0 \<le> count_nodes t"
  by (simp add: count_nodes_length)

lemma count_nodes_zero [simp]: "(count_nodes t = 0) = (t = NULL)"
  by (cases t) (simp_all add: count_nodes_length)

lemma inorder_Nil [simp]: "(inorder t = []) = (t = NULL)"
  by (cases t) simp_all

lemma keys_NULL [simp]: "keys NULL = []"
  by (simp add: keys_def)

lemma keys_Node [simp]: "keys (Node l k v h rk r) = keys l @ k # keys r"
  by (simp add: keys_def)

lemma QueryTraverse_default:
  "QueryTraverse t q FilterObject_default = (fst q + count_nodes t, snd q @ inorder t)"
proof (induction t arbitrary: q)
  case NULL
  then show ?case by simp
next
  case (Node l k v h rk r)
  show ?case
    by (simp add: Node.IH FilterObject_default_def [symmetric])
       (simp add: FilterObject_default_def)
qed

lemma Query_default:
  "Query tree FilterObject_default =
     \<lparr>result = inorder (root tree), total = count_nodes (root tree)\<rparr>"
  by (simp add: Query_def QueryTraverse_default)

lemma ranks_ok_DefaultRank: "ranks_ok DefaultRank t \<Longrightarrow> rank_of t = count_nodes t"
  by (induction t) (simp_all add: DefaultRank_def)

lemma GetRelativeRank_LEFT_count:
  "ranks_ok DefaultRank t \<Longrightarrow> t \<noteq> NULL \<Longrightarrow>
     GetRelativeRank x t LEFT_CHILD = count_nodes (left_child t) + 1"
  by (cases t) (simp_all add: GetRelativeRank_Node ranks_ok_DefaultRank DefaultRank_def)

lemma KeyValuePair_at_Node:
  "deref rt p = Node l k v h rk r \<Longrightarrow> KeyValuePair_at rt (Some p) = Inr (Some (k, v))"
  by (simp add: KeyValuePair_at_def)

section \<open>FindIndex\<close>

text \<open>
  Invariant of the descent: with \<open>i = count_nodes l + (index - cur_index)\<close> the wanted
  entry is the i-th of the current subtree. The pointer returned extends the position of
  the subtree by a path \<open>q\<close> inside it.
\<close>

lemma FindIndexTraverse_finds:
  assumes "ranks_ok DefaultRank t"
    and "0 \<le> count_nodes (left_child t) + (index - cur)"
    and "count_nodes (left_child t) + (index - cur) < count_nodes t"
    and "t \<noteq> NULL"
  shows "\<exists>q l k v h rk r. FindIndexTraverse t pos index cur = Inr (Some (q @ pos)) \<and>
           deref t q = Node l k v h rk r \<and>
           (k, v) = inorder t ! nat (count_nodes (left_child t) + (index - cur))"
  using assms
proof (induction t arbitrary: pos index cur)
  case NULL
  then show ?case by simp
next
  case (Node l k v h rk r)
  let ?i = "count_nodes l + (index - cur)"
  from Node.prems have i: "0 \<le> ?i" "?i < count_nodes l + 1 + count_nodes r" by simp_all
  from Node.prems have rl: "ranks_ok DefaultRank l" and rr: "ranks_ok DefaultRank r" by simp_all
  consider (eq) "index = cur" | (gt) "index > cur" | (lt) "index < cur" by linarith
  then show ?case
  proof cases
    case eq
    have "inorder (Node l k v h rk r) ! nat ?i = (k, v)"
      using eq by (simp add: count_nodes_length nth_append)
    then show ?thesis using eq by (intro exI [of _ "[]"]) simp
  next
    case gt
    then have rnn: "r \<noteq> NULL" using i by (cases r) auto
    let ?cur' = "cur + GetRelativeRank 0 r LEFT_CHILD"
    have cur': "?cur' = cur + 1 + count_nodes (left_child r)"
      using GetRelativeRank_LEFT_count [OF rr rnn] by simp
    have idx: "count_nodes (left_child r) + (index - ?cur') = ?i - count_nodes l - 1"
      using cur' by simp
    from Node.IH(2) [of index ?cur' "RightLink # pos"] rr rnn i gt idx
    obtain q l2 k2 v2 h2 rk2 r2 where
      q: "FindIndexTraverse r (RightLink # pos) index ?cur' = Inr (Some (q @ RightLink # pos))"
        "deref r q = Node l2 k2 v2 h2 rk2 r2"
        "(k2, v2) = inorder r ! nat (?i - count_nodes l - 1)"
      by auto
    have nth: "inorder (Node l k v h rk r) ! nat ?i = inorder r ! nat (?i - count_nodes l - 1)"
    proof -
      have a: "nat ?i = length (inorder l) + Suc (nat (?i - count_nodes l - 1))"
        using gt by (simp add: count_nodes_length)
      show ?thesis
        unfolding inorder.simps a by (simp add: nth_append)
    qed
    have d: "deref (Node l k v h rk r) (q @ [RightLink]) = deref r q"
      by (simp add: deref_append deref_Cons)
    show ?thesis
      using gt q nth d
      by (intro exI [of _ "q @ [RightLink]"]) (auto simp del: inorder.simps)
  next
    case lt
    then have lnn: "l \<noteq> NULL" using i by (cases l) auto
    then obtain ll lk lv lh lrk lr where l: "l = Node ll lk lv lh lrk lr"
      by (cases l) auto
    have rank_lr: "rank_of lr = count_nodes lr"
      using rl l ranks_ok_DefaultRank [of lr] by simp
    let ?cur' = "(if lr \<noteq> NULL then cur - rank_of lr else cur) - 1"
    have cur': "?cur' = cur - count_nodes lr - 1"
      using rank_lr by (cases lr) auto
    have idx: "count_nodes (left_child l) + (index - ?cur') = ?i"
      using l cur' by simp
    from Node.IH(1) [of index ?cur' "LeftLink # pos"] rl lnn i lt idx
    obtain q l2 k2 v2 h2 rk2 r2 where
      q: "FindIndexTraverse l (LeftLink # pos) index ?cur' = Inr (Some (q @ LeftLink # pos))"
        "deref l q = Node l2 k2 v2 h2 rk2 r2"
        "(k2, v2) = inorder l ! nat ?i"
      by auto
    have "nat ?i < length (inorder l)"
      using lt i by (simp add: count_nodes_length)
    then have nth: "inorder (Node l k v h rk r) ! nat ?i = inorder l ! nat ?i"
      by (simp add: nth_append)
    have d: "deref (Node l k v h rk r) (q @ [LeftLink]) = deref l q"
      by (simp add: deref_append deref_Cons)
    show ?thesis
      using lt q nth d l
      by (intro exI [of _ "q @ [LeftLink]"]) (auto simp del: inorder.simps)
  qed
qed

text \<open>
  C2, as stated, fails for a rank class other than the count. With the rank class whose
  contribution is the key, the tree built by Insert(2, a), Insert(4, b), Insert(6, c)
  satisfies the six invariants as the specification words them and has size 3; FindIndex
  fails on a null pointer at each of the indices 0, 1 and 2. FindIndexTraverse compares
  the index with the field \<open>rank\<close> of the stored ranks, which is a position only when
  the rank of a subtree is its number of entries.
\<close>

theorem C2_counterexample:
  "construct KeyRank (Inserted (Inserted (Inserted Empty 2 ''a'') 4 ''b'') 6 ''c'')
     = Inr keys_2_4_6 \<and>
   invariants_spec KeyRank keys_2_4_6 \<and>
   GetSize keys_2_4_6 = 3 \<and>
   result (Query keys_2_4_6 FilterObject_default) = [(2, ''a''), (4, ''b''), (6, ''c'')] \<and>
   FindIndex keys_2_4_6 0 = Inl NullDereference \<and>
   FindIndex keys_2_4_6 1 = Inl NullDereference \<and>
   FindIndex keys_2_4_6 2 = Inl NullDereference"
  by code_simp

text \<open>
  C2, amended. In a tree whose rank class is the count DefaultRank, whose stored ranks
  are right (invariant 4) and whose size field is its number of nodes (invariant 5),
  FindIndex at a valid index \<open>i\<close> returns the \<open>i\<close>-th entry of the result of the
  unfiltered Query.
\<close>

theorem C2_FindIndex_is_nth_of_Query:
  assumes "ranks_ok DefaultRank (root tree)" and "size_ok tree"
    and "0 \<le> i" and "i < GetSize tree"
  shows "FindIndex tree i = Inr (Some (result (Query tree FilterObject_default) ! nat i))"
proof -
  from assms have sz: "i < count_nodes (root tree)"
    by (simp add: size_ok_def GetSize_def)
  with assms(3) have nn: "root tree \<noteq> NULL" by (cases "root tree") auto
  let ?cur = "GetRelativeRank 0 (root tree) LEFT_CHILD"
  have cur: "?cur = count_nodes (left_child (root tree)) + 1"
    using GetRelativeRank_LEFT_count [OF assms(1) nn] by simp
  have idx: "count_nodes (left_child (root tree)) + (i + 1 - ?cur) = i"
    using cur by simp
  from FindIndexTraverse_finds [OF assms(1) _ _ nn, of "i + 1" ?cur "[]"] idx assms(3) sz
  obtain q l2 k2 v2 h2 rk2 r2 where
    q: "FindIndexTraverse (root tree) [] (i + 1) ?cur = Inr (Some q)"
      "deref (root tree) q = Node l2 k2 v2 h2 rk2 r2"
      "(k2, v2) = inorder (root tree) ! nat i"
    by auto
  have "FindIndex tree i = KeyValuePair_at (root tree) (Some q)"
    using assms(3,4) q(1) by (simp add: FindIndex_def GetSize_def)
  also have "\<dots> = Inr (Some (k2, v2))"
    using q(2) by (rule KeyValuePair_at_Node)
  finally show ?thesis
    using q(3) by (simp add: Query_default)
qed

theorem C2_FindIndex_witness:
  "ranks_ok DefaultRank (root keys_1_3_5) \<and> size_ok keys_1_3_5 \<and> GetSize keys_1_3_5 = 3 \<and>
   result (Query keys_1_3_5 FilterObject_default) = [(1, ''a''), (3, ''b''), (5, ''c'')] \<and>
   FindIndex keys_1_3_5 0 = Inr (Some (1, ''a'')) \<and>
   FindIndex keys_1_3_5 1 = Inr (Some (3, ''b'')) \<and>
   FindIndex keys_1_3_5 2 = Inr (Some (5, ''c''))"
proof -
  have a: "ranks_ok DefaultRank (root keys_1_3_5)" by code_simp
  have b: "size_ok keys_1_3_5" by code_simp
  have s: "GetSize keys_1_3_5 = 3" by code_simp
  have q: "result (Query keys_1_3_5 FilterObject_default) = [(1, ''a''), (3, ''b''), (5, ''c'')]"
    by code_simp
  have i0: "FindIndex keys_1_3_5 0 = Inr (Some (1, ''a''))"
    using C2_FindIndex_is_nth_of_Query [OF a b, of 0] by (simp add: s q)
  have i1: "FindIndex keys_1_3_5 1 = Inr (Some (3, ''b''))"
    using C2_FindIndex_is_nth_of_Query [OF a b, of 1] by (simp add: s q)
  have i2: "FindIndex keys_1_3_5 2 = Inr (Some (5, ''c''))"
    using C2_FindIndex_is_nth_of_Query [OF a b, of 2] by (simp add: s q)
  show ?thesis
    using a b s q i0 i1 i2 by simp
qed

text \<open>Query does not read the field \<open>reverse\<close>: setting it changes no result.\<close>

lemma QueryTraverse_ignores_reverse:
  "QueryTraverse t q (filter'\<lparr>reverse := b\<rparr>) = QueryTraverse t q filter'"
  by (induction t arbitrary: q) (simp_all add: Let_def)

lemma Query_ignores_reverse: "Query tree (filter'\<lparr>reverse := b\<rparr>) = Query tree filter'"
  by (simp add: Query_def QueryTraverse_ignores_reverse)

section \<open>GetIndexOfKey\<close>

text \<open>
  What GetIndexOfKeyTraverse computes in a search tree with distinct keys and DefaultRank
  counts: the number of keys less than the given key when the key is present (its
  position), and one less than that number when it is absent. For an absent key the
  result is -1 only when no key of the tree is less than it.
\<close>

lemma filter_less_all:
  fixes key' :: "'k::linorder"
  shows "\<forall>x \<in> set xs. x < key' \<Longrightarrow> filter (\<lambda>x. x < key') xs = xs"
  by (simp add: filter_id_conv)

lemma filter_less_none:
  fixes key' :: "'k::linorder"
  shows "\<forall>x \<in> set xs. \<not> x < key' \<Longrightarrow> filter (\<lambda>x. x < key') xs = []"
  by (simp add: filter_empty_conv)

lemma GetIndexOfKeyTraverse_counts:
  assumes "bst_strict t" and "ranks_ok DefaultRank t"
  shows "GetIndexOfKeyTraverse t key' =
           int (length (filter (\<lambda>x. x < key') (keys t))) -
           (if key' \<in> set (keys t) then 0 else 1)"
  using assms
proof (induction t)
  case NULL
  then show ?case by simp
next
  case (Node l a b h rk r)
  from Node.prems have sl: "bst_strict l" and sr: "bst_strict r"
    and la: "\<forall>x \<in> set (keys l). x < a" and ra: "\<forall>x \<in> set (keys r). a < x"
    and rl: "ranks_ok DefaultRank l" and rr: "ranks_ok DefaultRank r"
    by simp_all
  have rel: "GetRelativeRank 0 (Node l a b h rk r) LEFT_CHILD = int (length (keys l)) + 1"
    using GetRelativeRank_LEFT_count [OF Node.prems(2), of 0]
    by (simp add: count_nodes_length keys_def)
  consider (eq) "key' = a" | (lt) "key' < a" | (gt) "a < key'" by (rule linorder_cases)
  then show ?case
  proof cases
    case eq
    have "filter (\<lambda>x. x < key') (keys l) = keys l"
      using la eq by (intro filter_less_all) simp
    moreover have "filter (\<lambda>x. x < key') (keys r) = []"
      using ra eq by (intro filter_less_none) auto
    ultimately show ?thesis
      using eq rel by (simp add: CompareFunc_cases)
  next
    case lt
    have "filter (\<lambda>x. x < key') (keys r) = []"
      using ra lt by (intro filter_less_none) auto
    moreover have "key' \<notin> set (keys r)" using ra lt by auto
    ultimately show ?thesis
      using lt Node.IH(1) [OF sl rl] by (auto simp: CompareFunc_cases)
  next
    case gt
    have "filter (\<lambda>x. x < key') (keys l) = keys l"
      using la gt by (intro filter_less_all) auto
    moreover have "key' \<notin> set (keys l)" using la gt by auto
    ultimately show ?thesis
      using gt rel Node.IH(2) [OF sr rr] less_asym [of a key'] by (auto simp: CompareFunc_cases)
  qed
qed

section \<open>Query\<close>

text \<open>
  What QueryTraverse adds to the query state in a search tree: the accepted entries of
  the subtree in order, cut to the number still allowed by the limit when a limit is set.
\<close>

lemma QueryTraverse_window:
  fixes t :: "('k::linorder, 'v) Node"
  assumes "bst_weak t"
  shows "QueryTraverse t (n, acc) f =
     (let xs = filter (accepts f) (inorder t);
          ys = (if limit f \<le> - 1 then xs else take (nat (limit f - n)) xs)
      in (n + int (length ys), acc @ ys))"
  using assms
proof (induction t arbitrary: n acc)
  case NULL
  then show ?case by simp
next
  case (Node l k v h rk r)
  let ?t = "Node l k v h rk r"
  from Node.prems have sl: "bst_weak l" and sr: "bst_weak r"
    and la: "\<forall>x \<in> set (keys l). x \<le> k" and ra: "\<forall>x \<in> set (keys r). k \<le> x"
    by simp_all
  define A where "A = filter (accepts f) (inorder l)"
  define B where "B = filter (accepts f) (inorder r)"
  define E where "E = (if accepts f (k, v) then [(k, v)] else [])"
  define W where "W = (\<lambda>(xs :: ('k \<times> 'v) list) (m::int). if limit f \<le> - 1 then xs else take (nat (limit f - m)) xs)"
  have all: "filter (accepts f) (inorder ?t) = A @ E @ B"
    by (simp add: A_def B_def E_def)
  have ihl: "\<And>m ac. QueryTraverse l (m, ac) f = (m + int (length (W A m)), ac @ W A m)"
    using Node.IH(1) [OF sl] by (simp add: A_def W_def Let_def)
  have ihr: "\<And>m ac. QueryTraverse r (m, ac) f = (m + int (length (W B m)), ac @ W B m)"
    using Node.IH(2) [OF sr] by (simp add: B_def W_def Let_def)
  have goal: "?case = (QueryTraverse ?t (n, acc) f =
                 (n + int (length (W (A @ E @ B) n)), acc @ W (A @ E @ B) n))"
    unfolding all [symmetric] by (simp add: W_def Let_def del: inorder.simps QueryTraverse.simps)
  have cmin: "(case min_range f of None \<Rightarrow> False | Some m \<Rightarrow> CompareFunc k m = LESS_THAN) =
              (case min_range f of None \<Rightarrow> False | Some m \<Rightarrow> k < m)"
    by (simp split: option.splits)
  have cmax: "(case max_range f of None \<Rightarrow> False | Some m \<Rightarrow> CompareFunc k m = GREATER_THAN) =
              (case max_range f of None \<Rightarrow> False | Some m \<Rightarrow> m < k)"
    by (simp split: option.splits)
  have unf: "QueryTraverse ?t (n, acc) f =
     (if limit f \<le> n \<and> limit f > - 1 then (n, acc)
      else if (case min_range f of None \<Rightarrow> False | Some m \<Rightarrow> k < m)
        then QueryTraverse r (n, acc) f
      else if (case max_range f of None \<Rightarrow> False | Some m \<Rightarrow> m < k)
        then QueryTraverse l (n, acc) f
      else
        (let q1 = QueryTraverse l (n, acc) f;
             q2 = (if (limit f \<le> - 1 \<or> limit f > fst q1) \<and>
                      (case FilterFunction f of None \<Rightarrow> True | Some p \<Rightarrow> p k v)
                   then (fst q1 + 1, snd q1 @ [(k, v)]) else q1)
         in QueryTraverse r q2 f))"
    by (simp only: QueryTraverse.simps fst_conv cmin cmax)
  show ?case
    unfolding goal
  proof (cases "limit f \<le> n \<and> limit f > - 1")
    case True
    then have "QueryTraverse ?t (n, acc) f = (n, acc)"
      by (simp only: unf if_P)
    then show "QueryTraverse ?t (n, acc) f =
                 (n + int (length (W (A @ E @ B) n)), acc @ W (A @ E @ B) n)"
      using True by (simp add: W_def del: QueryTraverse.simps)
  next
    case open_: False
    show "QueryTraverse ?t (n, acc) f =
            (n + int (length (W (A @ E @ B) n)), acc @ W (A @ E @ B) n)"
    proof (cases "case min_range f of None \<Rightarrow> False | Some m \<Rightarrow> k < m")
      case True
      then obtain m where m: "min_range f = Some m" "k < m"
        by (cases "min_range f") auto
      have "\<forall>e \<in> set (inorder l). \<not> accepts f e"
        using la m by (force simp: accepts_def keys_def)
      then have "A = []" by (simp add: A_def filter_empty_conv)
      moreover have "E = []" using m by (simp add: E_def accepts_def)
      moreover have "QueryTraverse ?t (n, acc) f = QueryTraverse r (n, acc) f"
        by (simp only: unf if_not_P [OF open_] if_P [OF True])
      ultimately show ?thesis by (simp add: ihr)
    next
      case inmin: False
      show ?thesis
      proof (cases "case max_range f of None \<Rightarrow> False | Some m \<Rightarrow> m < k")
        case True
        then obtain m where m: "max_range f = Some m" "m < k"
          by (cases "max_range f") auto
        have "\<forall>e \<in> set (inorder r). \<not> accepts f e"
          using ra m by (force simp: accepts_def keys_def)
        then have "B = []" by (simp add: B_def filter_empty_conv)
        moreover have "E = []" using m by (simp add: E_def accepts_def)
        moreover have "QueryTraverse ?t (n, acc) f = QueryTraverse l (n, acc) f"
          by (simp only: unf if_not_P [OF open_] if_not_P [OF inmin] if_P [OF True])
        ultimately show ?thesis by (simp add: ihl)
      next
        case inmax: False
        have acc_k: "accepts f (k, v) =
                       (case FilterFunction f of None \<Rightarrow> True | Some p \<Rightarrow> p k v)"
          using inmin inmax by (auto simp: accepts_def split: option.splits)
        define n1 where "n1 = n + int (length (W A n))"
        define q2 where "q2 = (if (limit f \<le> - 1 \<or> limit f > n1) \<and> accepts f (k, v)
                               then (n1 + 1, (acc @ W A n) @ [(k, v)]) else (n1, acc @ W A n))"
        have "QueryTraverse ?t (n, acc) f =
                (let q1 = QueryTraverse l (n, acc) f;
                     q2 = (if (limit f \<le> - 1 \<or> limit f > fst q1) \<and>
                              (case FilterFunction f of None \<Rightarrow> True | Some p \<Rightarrow> p k v)
                           then (fst q1 + 1, snd q1 @ [(k, v)]) else q1)
                 in QueryTraverse r q2 f)"
          by (simp only: unf if_not_P [OF open_] if_not_P [OF inmin] if_not_P [OF inmax])
        then have step: "QueryTraverse ?t (n, acc) f = QueryTraverse r q2 f"
          by (simp only: ihl Let_def q2_def n1_def acc_k fst_conv snd_conv)
        show ?thesis
        proof (cases "limit f \<le> - 1")
          case True
          then have "q2 = (n + int (length (A @ E)), acc @ A @ E)"
            by (simp add: q2_def n1_def W_def E_def)
          then show ?thesis
            using True step by (simp add: ihr W_def)
        next
          case lim: False
          with open_ have room: "n < limit f" by simp
          show ?thesis
          proof (cases "int (length A) \<ge> limit f - n")
            case True
            then have wa: "W A n = take (nat (limit f - n)) A"
              and len: "int (length (W A n)) = limit f - n"
              using lim room by (simp_all add: W_def)
            have "q2 = (limit f, acc @ take (nat (limit f - n)) A)"
              using len wa lim by (simp add: q2_def n1_def)
            moreover have "W (A @ E @ B) n = take (nat (limit f - n)) A"
              using True lim by (simp add: W_def)
            ultimately show ?thesis
              using step lim len by (simp add: ihr W_def)
          next
            case False
            then have wa: "W A n = A"
              using lim by (simp add: W_def)
            have q2: "q2 = (n + int (length (A @ E)), acc @ A @ E)"
              using False wa by (simp add: q2_def n1_def E_def)
            have e1: "int (length E) \<le> limit f - n - int (length A)"
              using False by (simp add: E_def)
            have "W (A @ E @ B) n = A @ E @ take (nat (limit f - n) - length A - length E) B"
              using False lim e1 by (simp add: W_def)
            moreover have "W B (n + int (length (A @ E))) =
                             take (nat (limit f - n) - length A - length E) B"
            proof -
              have "nat (limit f - (n + int (length (A @ E)))) =
                      nat (limit f - n) - length A - length E"
                using e1 room by simp
              then show ?thesis using lim by (simp add: W_def)
            qed
            ultimately show ?thesis
              using step q2 by (simp add: ihr)
          qed
        qed
      qed
    qed
  qed
qed

text \<open>
  Query in a search tree: with a limit \<open>L \<ge> 0\<close> the result holds the first \<open>L\<close> accepted
  entries in ascending order, without a limit all of them; the count is the length of
  the result. The flag \<open>reverse\<close> plays no part.
\<close>

lemma Query_first_accepted:
  assumes "bst_weak (root tree)"
  shows "Query tree f =
     (let ys = (if limit f \<le> - 1 then filter (accepts f) (inorder (root tree))
                else take (nat (limit f)) (filter (accepts f) (inorder (root tree))))
      in \<lparr>result = ys, total = int (length ys)\<rparr>)"
  using QueryTraverse_window [OF assms, of 0 "[]" f] by (simp add: Query_def Let_def)

section \<open>Merging and rebuilding\<close>

lemma two_pointer_merge_Nil2 [simp]: "two_pointer_merge xs [] = xs"
  by (cases xs) simp_all

lemma mset_two_pointer_merge: "mset (two_pointer_merge xs ys) = mset xs + mset ys"
  by (induction xs ys rule: two_pointer_merge.induct) simp_all

lemma set_two_pointer_merge: "set (two_pointer_merge xs ys) = set xs \<union> set ys"
  by (induction xs ys rule: two_pointer_merge.induct) auto

lemma length_two_pointer_merge: "length (two_pointer_merge xs ys) = length xs + length ys"
  by (induction xs ys rule: two_pointer_merge.induct) simp_all

lemma sorted_two_pointer_merge:
  "sorted (map fst xs) \<Longrightarrow> sorted (map fst ys) \<Longrightarrow> sorted (map fst (two_pointer_merge xs ys))"
proof (induction xs ys rule: two_pointer_merge.induct)
  case (3 x xs y ys)
  show ?case
  proof (cases "fst x < fst y")
    case True
    with 3 show ?thesis
      by (auto simp: set_two_pointer_merge)
  next
    case False
    with 3 show ?thesis
      by (auto simp: set_two_pointer_merge)
  qed
qed simp_all

lemma read_at_nth:
  "0 \<le> i \<Longrightarrow> i < int (length xs) \<Longrightarrow> read_at xs i = Inr (xs ! nat i)"
  by (simp add: read_at_def)

lemma drop_nat_step:
  "0 \<le> i \<Longrightarrow> i < int (length xs) \<Longrightarrow> drop (nat i) xs = xs ! nat i # drop (nat (i + 1)) xs"
  by (simp add: Cons_nth_drop_Suc nat_add_distrib)

text \<open>The loop of MergeTwoQueries computes the list merge of what is left of the two
  arrays.\<close>

lemma MergeLoop_refines:
  assumes "total first = int (length (result first))"
    and "total second = int (length (result second))"
    and "result_total = total first + total second"
    and "0 \<le> i" and "i \<le> total first" and "0 \<le> j" and "j \<le> total second"
    and "t = i + j"
  shows "MergeLoop first second result_total i j t out =
           Inr (out @ two_pointer_merge (drop (nat i) (result first))
                        (drop (nat j) (result second)))"
  using assms
proof (induction first second result_total i j t out rule: MergeLoop.induct)
  case (1 first second result_total i j t out)
  note len = "1.prems"(1,2)
  show ?case
  proof (cases "t < result_total")
    case False
    with "1.prems" have "i = total first" "j = total second" by linarith+
    with False len show ?thesis
      by (subst MergeLoop.simps) simp
  next
    case True
    show ?thesis
    proof (cases "i < total first \<and> j < total second")
      case both: True
      then have ri: "read_at (result first) i = Inr (result first ! nat i)"
        and rj: "read_at (result second) j = Inr (result second ! nat j)"
        using "1.prems" by (simp_all add: read_at_nth)
      have di: "drop (nat i) (result first) = result first ! nat i # drop (nat (i + 1)) (result first)"
        and dj: "drop (nat j) (result second) = result second ! nat j # drop (nat (j + 1)) (result second)"
        using both "1.prems" by (simp_all add: drop_nat_step)
      show ?thesis
      proof (cases "CompareFunc (fst (result first ! nat i)) (fst (result second ! nat j)) = LESS_THAN")
        case less: True
        have "MergeLoop first second result_total (i + 1) j (t + 1) (out @ [result first ! nat i]) =
                Inr ((out @ [result first ! nat i]) @
                     two_pointer_merge (drop (nat (i + 1)) (result first))
                       (drop (nat j) (result second)))"
          using "1.IH"(1) [OF True both ri rj less] "1.prems" both by simp
        then show ?thesis
          using True both ri rj less
          by (subst MergeLoop.simps) (simp add: di dj del: CompareFunc_LESS)
      next
        case geq: False
        have "MergeLoop first second result_total i (j + 1) (t + 1) (out @ [result second ! nat j]) =
                Inr ((out @ [result second ! nat j]) @
                     two_pointer_merge (drop (nat i) (result first))
                       (drop (nat (j + 1)) (result second)))"
          using "1.IH"(2) [OF True both ri rj geq] "1.prems" both by simp
        then show ?thesis
          using True both ri rj geq
          by (subst MergeLoop.simps) (simp add: di dj del: CompareFunc_LESS)
      qed
    next
      case notboth: False
      show ?thesis
      proof (cases "j \<ge> total second")
        case jend: True
        with "1.prems" have j: "j = total second" by simp
        with True "1.prems" have ilt: "i < total first" by simp
        have ri: "read_at (result first) i = Inr (result first ! nat i)"
          using ilt "1.prems" by (simp add: read_at_nth)
        have di: "drop (nat i) (result first) = result first ! nat i # drop (nat (i + 1)) (result first)"
          using ilt "1.prems" by (simp add: drop_nat_step)
        have "MergeLoop first second result_total (i + 1) j (t + 1) (out @ [result first ! nat i]) =
                Inr ((out @ [result first ! nat i]) @
                     two_pointer_merge (drop (nat (i + 1)) (result first))
                       (drop (nat j) (result second)))"
          using "1.IH"(3) [OF True notboth jend ri] "1.prems" ilt by simp
        then show ?thesis
          using True notboth jend ri j len
          by (subst MergeLoop.simps) (simp add: di)
      next
        case jin: False
        with notboth "1.prems" have i: "i = total first" by simp
        have rj: "read_at (result second) j = Inr (result second ! nat j)"
          using jin "1.prems" by (simp add: read_at_nth)
        have dj: "drop (nat j) (result second) = result second ! nat j # drop (nat (j + 1)) (result second)"
          using jin "1.prems" by (simp add: drop_nat_step)
        have "MergeLoop first second result_total i (j + 1) (t + 1) (out @ [result second ! nat j]) =
                Inr ((out @ [result second ! nat j]) @
                     two_pointer_merge (drop (nat i) (result first))
                       (drop (nat (j + 1)) (result second)))"
          using "1.IH"(4) [OF True notboth jin rj] "1.prems" jin by simp
        then show ?thesis
          using True notboth jin rj i len
          by (subst MergeLoop.simps) (simp add: dj)
      qed
    qed
  qed
qed

lemma MergeTwoQueries_refines:
  assumes "total first = int (length (result first))"
    and "total second = int (length (result second))"
  shows "MergeTwoQueries first second =
           (if total first + total second = 0 then Inr None
            else Inr (Some \<lparr>result = two_pointer_merge (result first) (result second),
                           total = total first + total second\<rparr>))"
proof -
  have "0 \<le> total first" "0 \<le> total second"
    using assms by simp_all
  then have "MergeLoop first second (total first + total second) 0 0 0 [] =
               Inr (two_pointer_merge (result first) (result second))"
    using MergeLoop_refines [OF assms refl, of 0 0 0 "[]"] by simp
  then show ?thesis
    by (simp add: MergeTwoQueries_def Let_def)
qed

lemma cpp_div2_nonneg: "0 \<le> x \<Longrightarrow> cpp_div2 x = x div 2"
  by (simp add: cpp_div2_def)

lemma TreeFromQuery_base:
  "start > end' \<Longrightarrow> TreeFromQuery ri q start end' pos mm = Inr (NULL, mm)"
  by (subst TreeFromQuery.simps) simp

lemma TreeFromQuery_step:
  assumes "start \<le> end'" and "0 \<le> start" and "end' < int (length (result q))"
  shows "TreeFromQuery ri q start end' pos mm =
     (let middle = (start + end') div 2;
          kv = result q ! nat middle;
          mm1 = (if middle = 0 then (Some pos, snd mm) else mm);
          mm2 = (if middle = total q - 1 then (fst mm1, Some pos) else mm1)
      in case TreeFromQuery ri q start (middle - 1) (LeftLink # pos) mm2 of
           Inl e \<Rightarrow> Inl e
         | Inr (l, mm3) \<Rightarrow>
             (case TreeFromQuery ri q (middle + 1) end' (RightLink # pos) mm3 of
                Inl e \<Rightarrow> Inl e
              | Inr (r, mm4) \<Rightarrow>
                  Inr (UpdateRank ri
                         (Node l (fst kv) (snd kv) (max (GetHeight l) (GetHeight r) + 1)
                            (ri (fst kv) (snd kv)) r) l r, mm4)))"
proof -
  have m: "0 \<le> (start + end') div 2" "(start + end') div 2 < int (length (result q))"
    using assms by simp_all
  show ?thesis
    using assms m
    by (subst TreeFromQuery.simps)
       (simp add: cpp_div2_nonneg read_at_nth Let_def)
qed

lemma slice_split:
  assumes "m < length xs" and "s \<le> m" and "m \<le> e"
  shows "take (e - s + 1) (drop s xs) =
           take (m - s) (drop s xs) @ xs ! m # take (e - m) (drop (Suc m) xs)"
proof -
  have "e - s + 1 = (m - s) + Suc (e - m)"
    using assms by simp
  then have "take (e - s + 1) (drop s xs) =
               take (m - s) (drop s xs) @ take (Suc (e - m)) (drop (m - s) (drop s xs))"
    by (simp only: take_add)
  also have "drop (m - s) (drop s xs) = drop m xs"
    using assms by simp
  also have "take (Suc (e - m)) (drop m xs) = xs ! m # take (e - m) (drop (Suc m) xs)"
    using assms(1) by (simp add: Cons_nth_drop_Suc [symmetric])
  finally show ?thesis .
qed

lemma heights_ok_lower: "heights_ok t \<Longrightarrow> - 1 \<le> GetHeight t"
  by (induction t) auto

lemma heights_ok_Node_nonneg: "heights_ok (Node l k v h rk r) \<Longrightarrow> 0 \<le> h"
  using heights_ok_lower [of l] heights_ok_lower [of r] by auto

lemma heights_ok_NULL_iff: "heights_ok t \<Longrightarrow> (GetHeight t = - 1) = (t = NULL)"
  using heights_ok_Node_nonneg by (cases t) fastforce+

text \<open>
  The arithmetic of a node whose subtrees differ in size by at most one, the right one
  being the larger: with the size bounds \<open>2 ^ h \<le> n < 2 ^ (h + 1)\<close> of both subtrees
  the heights differ by at most one and the node satisfies the same bounds.
\<close>

lemma size_balanced_step:
  fixes hl hr nl nr :: int
  assumes hl: "- 1 \<le> hl" and hr: "- 1 \<le> hr"
    and ul: "nl + 1 \<le> 2 ^ nat (hl + 1)" and ur: "nr + 1 \<le> 2 ^ nat (hr + 1)"
    and ll: "hl \<noteq> - 1 \<Longrightarrow> 2 ^ nat hl \<le> nl" and lr: "hr \<noteq> - 1 \<Longrightarrow> 2 ^ nat hr \<le> nr"
    and zl: "(nl = 0) = (hl = - 1)" and zr: "(nr = 0) = (hr = - 1)"
    and n: "0 \<le> nl" "nl \<le> nr" "nr \<le> nl + 1"
  shows "hl \<le> hr" and "hr \<le> hl + 1"
    and "nl + 1 + nr + 1 \<le> 2 ^ nat (max hl hr + 1 + 1)"
    and "2 ^ nat (max hl hr + 1) \<le> nl + 1 + nr"
proof -
  show le: "hl \<le> hr"
  proof (cases "hl = - 1")
    case True
    then show ?thesis using hr by simp
  next
    case False
    then have "(2::int) ^ nat hl \<le> nl" by (rule ll)
    also have "nl < nr + 1" using n by simp
    also note ur
    finally have "(2::int) ^ nat hl < 2 ^ nat (hr + 1)" .
    then have "nat hl < nat (hr + 1)" by (simp add: power_strict_increasing_iff)
    then show ?thesis using hl by linarith
  qed
  show ge: "hr \<le> hl + 1"
  proof (cases "hr = - 1")
    case True
    then show ?thesis using hl by simp
  next
    case False
    then have "(2::int) ^ nat hr \<le> nr" by (rule lr)
    also have "nr \<le> nl + 1" using n by simp
    also note ul
    finally have "(2::int) ^ nat hr \<le> 2 ^ nat (hl + 1)" .
    then have "nat hr \<le> nat (hl + 1)" by (simp add: power_increasing_iff)
    then show ?thesis using hr hl False by linarith
  qed
  have mx: "max hl hr = hr" using le by simp
  have "(2::int) ^ nat (hl + 1) \<le> 2 ^ nat (hr + 1)"
    using le hl by (intro power_increasing) simp_all
  then have "nl + 1 + nr + 1 \<le> 2 * 2 ^ nat (hr + 1)"
    using ul ur by linarith
  also have "\<dots> = 2 ^ nat (hr + 1 + 1)"
  proof -
    have "nat (hr + 1 + 1) = Suc (nat (hr + 1))" using hr by linarith
    then show ?thesis by simp
  qed
  finally show "nl + 1 + nr + 1 \<le> 2 ^ nat (max hl hr + 1 + 1)"
    by (simp add: mx)
  show "2 ^ nat (max hl hr + 1) \<le> nl + 1 + nr"
  proof (cases "hr = - 1")
    case True
    then show ?thesis using n mx by simp
  next
    case False
    then have a: "(2::int) ^ nat hr \<le> nr" by (rule lr)
    have "nat (hr + 1) = Suc (nat hr)" using hr False by linarith
    then have "(2::int) ^ nat (hr + 1) = 2 * 2 ^ nat hr" by simp
    also have "\<dots> \<le> nl + 1 + nr" using a n by linarith
    finally show ?thesis by (simp add: mx)
  qed
qed

text \<open>TreeFromQuery on a slice of the array: it succeeds, the tree holds the slice in
  order, and the tree satisfies invariants 2 to 4.\<close>

lemma TreeFromQuery_builds:
  assumes "0 \<le> start" and "end' < int (length (result q))" and "start \<le> end' + 1"
  shows "\<exists>t mm'. TreeFromQuery ri q start end' pos mm = Inr (t, mm') \<and>
           inorder t = take (nat (end' - start + 1)) (drop (nat start) (result q)) \<and>
           heights_ok t \<and> ranks_ok ri t \<and> balanced t \<and> size_bounds t"
  using assms
proof (induction "nat (end' - start + 1)" arbitrary: start end' pos mm rule: less_induct)
  case less
  show ?case
  proof (cases "start > end'")
    case True
    with less.prems have "end' - start + 1 = 0" by simp
    then show ?thesis
      using True by (simp add: TreeFromQuery_base size_bounds_def)
  next
    case False
    then have se: "start \<le> end'" by simp
    define m where "m = (start + end') div 2"
    have m: "start \<le> m" "m \<le> end'" "0 \<le> m" "m < int (length (result q))"
      using se less.prems by (simp_all add: m_def)
    define kv where "kv = result q ! nat m"
    define mm2 where
      "mm2 = (if m = total q - 1
              then (fst (if m = 0 then (Some pos, snd mm) else mm), Some pos)
              else (if m = 0 then (Some pos, snd mm) else mm))"
    from less.hyps [of "m - 1" start "LeftLink # pos" mm2] m less.prems
    obtain l mm3 where l:
      "TreeFromQuery ri q start (m - 1) (LeftLink # pos) mm2 = Inr (l, mm3)"
      "inorder l = take (nat (m - start)) (drop (nat start) (result q))"
      "heights_ok l" "ranks_ok ri l" "balanced l" "size_bounds l"
      by auto
    from less.hyps [of end' "m + 1" "RightLink # pos" mm3] m less.prems
    obtain r mm4 where r:
      "TreeFromQuery ri q (m + 1) end' (RightLink # pos) mm3 = Inr (r, mm4)"
      "inorder r = take (nat (end' - m)) (drop (nat (m + 1)) (result q))"
      "heights_ok r" "ranks_ok ri r" "balanced r" "size_bounds r"
      by auto
    let ?t = "Node l (fst kv) (snd kv) (max (GetHeight l) (GetHeight r) + 1)
                (ri (fst kv) (snd kv) + rank_of l + rank_of r) r"
    have res: "TreeFromQuery ri q start end' pos mm = Inr (?t, mm4)"
      using TreeFromQuery_step [OF se less.prems(1,2), of ri pos mm] l(1) r(1)
      by (simp add: Let_def m_def [symmetric] kv_def [symmetric] mm2_def [symmetric])
    have nl: "count_nodes l = m - start" and nr: "count_nodes r = end' - m"
      using l(2) r(2) m less.prems by (simp_all add: count_nodes_length)
    have io: "inorder ?t = take (nat (end' - start + 1)) (drop (nat start) (result q))"
    proof -
      have "take (nat end' - nat start + 1) (drop (nat start) (result q)) =
              take (nat m - nat start) (drop (nat start) (result q)) @
              result q ! nat m # take (nat end' - nat m) (drop (Suc (nat m)) (result q))"
        using m less.prems by (intro slice_split) simp_all
      moreover have "nat (end' - start + 1) = nat end' - nat start + 1"
        "nat (m - start) = nat m - nat start" "nat (end' - m) = nat end' - nat m"
        "nat (m + 1) = Suc (nat m)"
        using m less.prems by linarith+
      ultimately show ?thesis
        using l(2) r(2) by (simp add: kv_def)
    qed
    have hb: "- 1 \<le> GetHeight l" "- 1 \<le> GetHeight r"
      using l(3) r(3) by (simp_all add: heights_ok_lower)
    have zl: "(count_nodes l = 0) = (GetHeight l = - 1)"
      and zr: "(count_nodes r = 0) = (GetHeight r = - 1)"
      using l(3) r(3) by (simp_all add: heights_ok_NULL_iff)
    have sl: "count_nodes l + 1 \<le> 2 ^ nat (GetHeight l + 1)"
      "GetHeight l \<noteq> - 1 \<Longrightarrow> 2 ^ nat (GetHeight l) \<le> count_nodes l"
      using l(6) l(3) by (auto simp: size_bounds_def heights_ok_NULL_iff)
    have sr: "count_nodes r + 1 \<le> 2 ^ nat (GetHeight r + 1)"
      "GetHeight r \<noteq> - 1 \<Longrightarrow> 2 ^ nat (GetHeight r) \<le> count_nodes r"
      using r(6) r(3) by (auto simp: size_bounds_def heights_ok_NULL_iff)
    have cmp: "0 \<le> count_nodes l" "count_nodes l \<le> count_nodes r"
      "count_nodes r \<le> count_nodes l + 1"
      using nl nr m se by (simp_all add: m_def)
    note st = size_balanced_step [OF hb sl(1) sr(1) sl(2) sr(2) zl zr cmp]
    have bal: "balanced ?t"
      using l(5) r(5) st(1,2) by simp
    have hok: "heights_ok ?t"
      using l(3) r(3) by simp
    have rok: "ranks_ok ri ?t"
      using l(4) r(4) by simp
    have sb: "size_bounds ?t"
      using st(3,4) by (simp add: size_bounds_def)
    show ?thesis
      using res io bal hok rok sb by blast
  qed
qed

lemma deref_under_Left: "deref (Node l k v h rk r) (p @ [LeftLink]) = deref l p"
  by (simp add: deref_append deref_Cons)

lemma deref_under_Right: "deref (Node l k v h rk r) (p @ [RightLink]) = deref r p"
  by (simp add: deref_append deref_Cons)

text \<open>
  What TreeFromQuery leaves in \<open>min_node\<close> and \<open>max_node\<close>: the node built from index
  0, resp. from the last index, when the slice holds that index; the old value otherwise.
\<close>

lemma TreeFromQuery_pointers:
  assumes "0 \<le> start" and "end' < int (length (result q))" and "start \<le> end' + 1"
    and "total q = int (length (result q))"
    and "TreeFromQuery ri q start end' pos mm = Inr (t, mm')"
  shows "(if start = 0 \<and> 0 \<le> end'
          then \<exists>p l k v h rk r. fst mm' = Some (p @ pos) \<and> deref t p = Node l k v h rk r \<and>
                 (k, v) = result q ! 0
          else fst mm' = fst mm) \<and>
         (if end' = total q - 1 \<and> start \<le> end'
          then \<exists>p l k v h rk r. snd mm' = Some (p @ pos) \<and> deref t p = Node l k v h rk r \<and>
                 (k, v) = result q ! nat end'
          else snd mm' = snd mm)"
  using assms
proof (induction "nat (end' - start + 1)" arbitrary: start end' pos mm t mm' rule: less_induct)
  case less
  note tot = less.prems(4)
  show ?case
  proof (cases "start > end'")
    case True
    with less.prems show ?thesis
      by (auto simp: TreeFromQuery_base)
  next
    case False
    then have se: "start \<le> end'" by simp
    define m where "m = (start + end') div 2"
    have m: "start \<le> m" "m \<le> end'" "0 \<le> m" "m < int (length (result q))"
      using se less.prems by (simp_all add: m_def)
    define kv where "kv = result q ! nat m"
    define mm2 where
      "mm2 = (if m = total q - 1
              then (fst (if m = 0 then (Some pos, snd mm) else mm), Some pos)
              else (if m = 0 then (Some pos, snd mm) else mm))"
    have fmm2: "fst mm2 = (if m = 0 then Some pos else fst mm)"
      and smm2: "snd mm2 = (if m = total q - 1 then Some pos else snd mm)"
      by (simp_all add: mm2_def)
    obtain l mm3 where l: "TreeFromQuery ri q start (m - 1) (LeftLink # pos) mm2 = Inr (l, mm3)"
      using TreeFromQuery_builds [of start "m - 1" q ri "LeftLink # pos" mm2] m less.prems
      by auto
    obtain r mm4 where r: "TreeFromQuery ri q (m + 1) end' (RightLink # pos) mm3 = Inr (r, mm4)"
      using TreeFromQuery_builds [of "m + 1" end' q ri "RightLink # pos" mm3] m less.prems
      by auto
    have "TreeFromQuery ri q start end' pos mm =
            Inr (Node l (fst kv) (snd kv) (max (GetHeight l) (GetHeight r) + 1)
                   (ri (fst kv) (snd kv) + rank_of l + rank_of r) r, mm4)"
      using TreeFromQuery_step [OF se less.prems(1,2), of ri pos mm] l r
      by (simp add: Let_def m_def [symmetric] kv_def [symmetric] mm2_def [symmetric])
    with less.prems(5) have t: "t = Node l (fst kv) (snd kv) (max (GetHeight l) (GetHeight r) + 1)
                   (ri (fst kv) (snd kv) + rank_of l + rank_of r) r"
      and mm': "mm' = mm4" by simp_all
    have ihl: "(if start = 0 \<and> 0 \<le> m - 1
          then \<exists>p l' k v h rk r'. fst mm3 = Some (p @ LeftLink # pos) \<and>
                 deref l p = Node l' k v h rk r' \<and> (k, v) = result q ! 0
          else fst mm3 = fst mm2) \<and>
         (if m - 1 = total q - 1 \<and> start \<le> m - 1
          then \<exists>p l' k v h rk r'. snd mm3 = Some (p @ LeftLink # pos) \<and>
                 deref l p = Node l' k v h rk r' \<and> (k, v) = result q ! nat (m - 1)
          else snd mm3 = snd mm2)"
      by (rule less.hyps) (use m less.prems l in simp_all)
    have ihr: "(if m + 1 = 0 \<and> 0 \<le> end'
          then \<exists>p l' k v h rk r'. fst mm4 = Some (p @ RightLink # pos) \<and>
                 deref r p = Node l' k v h rk r' \<and> (k, v) = result q ! 0
          else fst mm4 = fst mm3) \<and>
         (if end' = total q - 1 \<and> m + 1 \<le> end'
          then \<exists>p l' k v h rk r'. snd mm4 = Some (p @ RightLink # pos) \<and>
                 deref r p = Node l' k v h rk r' \<and> (k, v) = result q ! nat end'
          else snd mm4 = snd mm3)"
      by (rule less.hyps) (use m less.prems r in simp_all)
    have f43: "fst mm4 = fst mm3" using ihr m by simp
    have s32: "snd mm3 = snd mm2" using ihl m less.prems tot by simp
    have minp: "if start = 0 \<and> 0 \<le> end'
          then \<exists>p l k v h rk r. fst mm' = Some (p @ pos) \<and> deref t p = Node l k v h rk r \<and>
                 (k, v) = result q ! 0
          else fst mm' = fst mm"
    proof (cases "start = 0")
      case s0: True
      show ?thesis
      proof (cases "0 \<le> m - 1")
        case True
        with ihl s0 obtain p l' k v h rk r' where
          p: "fst mm3 = Some (p @ LeftLink # pos)" "deref l p = Node l' k v h rk r'"
             "(k, v) = result q ! 0"
          by auto
        have "fst mm' = Some ((p @ [LeftLink]) @ pos)"
          using p(1) f43 mm' by simp
        moreover have "deref t (p @ [LeftLink]) = Node l' k v h rk r'"
          unfolding t deref_under_Left by (rule p(2))
        ultimately show ?thesis
          using s0 se p(3) by (intro if_P [THEN iffD2] conjI) blast+
      next
        case False
        with m s0 have m0: "m = 0" by simp
        then have "fst mm2 = Some pos" by (simp add: fmm2)
        with ihl False f43 mm' have "fst mm' = Some ([] @ pos)" by simp
        moreover have "deref t [] = t" by simp
        moreover have "(fst kv, snd kv) = result q ! 0" using m0 by (simp add: kv_def)
        ultimately show ?thesis
          using s0 se t by (intro if_P [THEN iffD2] conjI) blast+
      qed
    next
      case False
      with less.prems m have "m \<noteq> 0" by simp
      then have "fst mm2 = fst mm" by (simp add: fmm2)
      with ihl False f43 mm' show ?thesis by simp
    qed
    have maxp: "if end' = total q - 1 \<and> start \<le> end'
          then \<exists>p l k v h rk r. snd mm' = Some (p @ pos) \<and> deref t p = Node l k v h rk r \<and>
                 (k, v) = result q ! nat end'
          else snd mm' = snd mm"
    proof (cases "end' = total q - 1")
      case e: True
      show ?thesis
      proof (cases "m + 1 \<le> end'")
        case True
        with ihr e obtain p l' k v h rk r' where
          p: "snd mm4 = Some (p @ RightLink # pos)" "deref r p = Node l' k v h rk r'"
             "(k, v) = result q ! nat end'"
          by auto
        have "snd mm' = Some ((p @ [RightLink]) @ pos)"
          using p(1) mm' by simp
        moreover have "deref t (p @ [RightLink]) = Node l' k v h rk r'"
          unfolding t deref_under_Right by (rule p(2))
        ultimately show ?thesis
          using e se p(3) by (intro if_P [THEN iffD2] conjI) blast+
      next
        case False
        with m have me: "m = end'" by simp
        then have "snd mm2 = Some pos" using e by (simp add: smm2)
        with ihr False s32 mm' have "snd mm' = Some ([] @ pos)" by simp
        moreover have "deref t [] = t" by simp
        moreover have "(fst kv, snd kv) = result q ! nat end'" using me by (simp add: kv_def)
        ultimately show ?thesis
          using e se t by (intro if_P [THEN iffD2] conjI) blast+
      qed
    next
      case False
      with less.prems m tot have "m \<noteq> total q - 1" by simp
      then have "snd mm2 = snd mm" by (simp add: smm2)
      with ihr False s32 mm' show ?thesis by simp
    qed
    show ?thesis using minp maxp by simp
  qed
qed

text \<open>The combine constructor on two trees whose size fields are right.\<close>

lemma merge_builds:
  assumes "size_ok t1" and "size_ok t2"
  shows "\<exists>t mn mx.
           AVLRankTree_merge ri t1 t2 =
             Inr \<lparr>size_field = count_nodes (root t1) + count_nodes (root t2), root = t,
                  max_node = mx, min_node = mn\<rparr> \<and>
           inorder t = two_pointer_merge (inorder (root t1)) (inorder (root t2)) \<and>
           heights_ok t \<and> ranks_ok ri t \<and> balanced t \<and>
           (t = NULL \<longrightarrow> mn = None \<and> mx = None) \<and>
           (t \<noteq> NULL \<longrightarrow>
              (\<exists>p l k v h rk r. mn = Some p \<and> deref t p = Node l k v h rk r \<and>
                 (k, v) = hd (inorder t)) \<and>
              (\<exists>p l k v h rk r. mx = Some p \<and> deref t p = Node l k v h rk r \<and>
                 (k, v) = last (inorder t)))"
proof -
  let ?A = "inorder (root t1)" and ?B = "inorder (root t2)"
  let ?n = "count_nodes (root t1) + count_nodes (root t2)"
  have sz: "size_field t1 = count_nodes (root t1)" "size_field t2 = count_nodes (root t2)"
    using assms by (simp_all add: size_ok_def)
  show ?thesis
  proof (cases "?n = 0")
    case True
    then have "root t1 = NULL" "root t2 = NULL"
      using count_nodes_nonneg [of "root t1"] count_nodes_nonneg [of "root t2"]
      by (simp_all add: add_nonneg_eq_0_iff)
    then show ?thesis
      using sz by (simp add: AVLRankTree_merge_def)
  next
    case False
    let ?q = "\<lparr>result = two_pointer_merge ?A ?B, total = ?n\<rparr>"
    have mq: "MergeTwoQueries (Query t1 FilterObject_default) (Query t2 FilterObject_default)
                = Inr (Some ?q)"
      using False
      by (subst MergeTwoQueries_refines) (simp_all add: Query_default count_nodes_length)
    have len: "int (length (result ?q)) = ?n"
      by (simp add: length_two_pointer_merge count_nodes_length)
    have pos: "0 < ?n"
      using False count_nodes_nonneg [of "root t1"] count_nodes_nonneg [of "root t2"]
      by linarith
    from TreeFromQuery_builds [of 0 "?n - 1" ?q ri "[]" "(None, None)"] len
    obtain t mm' where t:
      "TreeFromQuery ri ?q 0 (?n - 1) [] (None, None) = Inr (t, mm')"
      "inorder t = take (nat ?n) (result ?q)"
      "heights_ok t" "ranks_ok ri t" "balanced t"
      by auto
    have io: "inorder t = two_pointer_merge ?A ?B"
      using t(2) len by simp
    then have nn: "t \<noteq> NULL"
      using pos len by (cases t) auto
    have ne0: "two_pointer_merge ?A ?B \<noteq> []"
      using len pos by auto
    have ptr: "(\<exists>p l k v h rk r. fst mm' = Some (p @ []) \<and> deref t p = Node l k v h rk r \<and>
                 (k, v) = result ?q ! 0) \<and>
          (\<exists>p l k v h rk r. snd mm' = Some (p @ []) \<and> deref t p = Node l k v h rk r \<and>
                 (k, v) = result ?q ! nat (?n - 1))"
      using TreeFromQuery_pointers [of 0 "?n - 1" ?q ri "[]" "(None, None)" t mm'] t(1) len pos ne0
      by simp
    have ne: "inorder t \<noteq> []" using nn by simp
    have hd: "result ?q ! 0 = hd (inorder t)"
      using ne io by (simp add: hd_conv_nth)
    have "nat (?n - 1) = length (inorder t) - 1"
      using io len by (simp add: length_two_pointer_merge count_nodes_length)
    then have lst: "result ?q ! nat (?n - 1) = last (inorder t)"
      using ne io by (simp add: last_conv_nth)
    obtain mn mx where mm': "mm' = (mn, mx)" by (cases mm')
    have res: "AVLRankTree_merge ri t1 t2 =
             Inr \<lparr>size_field = ?n, root = t, max_node = mx, min_node = mn\<rparr>"
      using False sz mq t(1) mm' by (simp add: AVLRankTree_merge_def)
    show ?thesis
      using res io t(3,4,5) nn ptr hd lst mm' by (intro exI [of _ t] exI [of _ mn] exI [of _ mx]) simp
  qed
qed

text \<open>
  C8. For two source trees whose size fields are their node counts, the combine
  constructor succeeds; the entries of the new tree, in order, are the two-pointer merge
  by the comparator of the entries of the sources (the same entries, and ascending by key
  when both sources are), and its size is the sum of the two lengths.
\<close>

theorem C8_merge_constructor:
  assumes "size_ok first_tree" and "size_ok second_tree"
  shows "\<exists>m. AVLRankTree_merge ri first_tree second_tree = Inr m \<and>
           result (Query m FilterObject_default) =
             two_pointer_merge (result (Query first_tree FilterObject_default))
               (result (Query second_tree FilterObject_default)) \<and>
           GetSize m = int (length (result (Query first_tree FilterObject_default))) +
                       int (length (result (Query second_tree FilterObject_default))) \<and>
           mset (result (Query m FilterObject_default)) =
             mset (result (Query first_tree FilterObject_default)) +
             mset (result (Query second_tree FilterObject_default)) \<and>
           (sorted (map fst (result (Query first_tree FilterObject_default))) \<and>
            sorted (map fst (result (Query second_tree FilterObject_default))) \<longrightarrow>
            sorted (map fst (result (Query m FilterObject_default))))"
proof -
  from merge_builds [OF assms, of ri] obtain t mn mx where
    m: "AVLRankTree_merge ri first_tree second_tree =
          Inr \<lparr>size_field = count_nodes (root first_tree) + count_nodes (root second_tree),
               root = t, max_node = mx, min_node = mn\<rparr>"
    and io: "inorder t = two_pointer_merge (inorder (root first_tree)) (inorder (root second_tree))"
    by blast
  show ?thesis
    using m io
    by (simp add: Query_default GetSize_def count_nodes_length mset_two_pointer_merge
          sorted_two_pointer_merge)
qed

theorem C8_merge_witness:
  "size_ok keys_1_3_5 \<and> size_ok one_entry_tree \<and>
   (\<exists>m. AVLRankTree_merge DefaultRank keys_1_3_5 one_entry_tree = Inr m \<and>
      result (Query m FilterObject_default) = [(1, ''a''), (1, ''a''), (3, ''b''), (5, ''c'')] \<and>
      GetSize m = 4)"
proof -
  have a: "size_ok keys_1_3_5" by code_simp
  have b: "size_ok one_entry_tree" by code_simp
  have c: "two_pointer_merge (result (Query keys_1_3_5 FilterObject_default))
             (result (Query one_entry_tree FilterObject_default))
           = [(1, ''a''), (1, ''a''), (3, ''b''), (5, ''c'')]"
    by code_simp
  have d: "int (length (result (Query keys_1_3_5 FilterObject_default))) +
           int (length (result (Query one_entry_tree FilterObject_default))) = 4"
    by code_simp
  show ?thesis
    using a b C8_merge_constructor [OF a b, of DefaultRank] unfolding c d by blast
qed

section \<open>Closest\<close>

lemma follow_in_inorder:
  "follow t ps = Node l k v h rk r \<Longrightarrow> (k, v) \<in> set (inorder t)"
  by (induction t ps rule: follow.induct) auto

lemma deref_in_inorder:
  "deref t q = Node l k v h rk r \<Longrightarrow> (k, v) \<in> set (inorder t)"
  unfolding deref_def by (rule follow_in_inorder)

lemma deref_in_keys:
  "deref t q = Node l k v h rk r \<Longrightarrow> k \<in> set (keys t)"
  using deref_in_inorder [of t q l k v h rk r] by (force simp: keys_def)

text \<open>
  ClosestTraverse towards LESS_THAN in a search tree: either no key of the subtree is at
  most the wanted key and the caller's candidate stays, or the result is a node of the
  subtree holding the greatest key that is at most the wanted key.
\<close>

lemma ClosestTraverse_LESS:
  assumes "bst_weak t"
  shows "((\<forall>x \<in> set (keys t). key' < x) \<and> ClosestTraverse t pos key' res LESS_THAN = res) \<or>
         (\<exists>q l k v h rk r. ClosestTraverse t pos key' res LESS_THAN = Some (q @ pos) \<and>
            deref t q = Node l k v h rk r \<and> k \<le> key' \<and>
            (\<forall>x \<in> set (keys t). x \<le> key' \<longrightarrow> x \<le> k))"
  using assms
proof (induction t arbitrary: pos res)
  case NULL
  then show ?case by simp
next
  case (Node l a b h rk r)
  from Node.prems have bl: "bst_weak l" and br: "bst_weak r"
    and la: "\<forall>x \<in> set (keys l). x \<le> a" and ra: "\<forall>x \<in> set (keys r). a \<le> x"
    by simp_all
  let ?t = "Node l a b h rk r"
  consider (eq) "key' = a" | (lt) "key' < a" | (gt) "a < key'" by (rule linorder_cases)
  then show ?case
  proof cases
    case eq
    have "ClosestTraverse ?t pos key' res LESS_THAN = Some ([] @ pos)"
      using eq by (simp add: CompareFunc_cases)
    moreover have "deref ?t [] = ?t" by simp
    moreover have "\<forall>x \<in> set (keys ?t). x \<le> key' \<longrightarrow> x \<le> a" using eq by simp
    ultimately show ?thesis using eq by blast
  next
    case lt
    then have step: "ClosestTraverse ?t pos key' res LESS_THAN =
                       ClosestTraverse l (LeftLink # pos) key' res LESS_THAN"
      by (simp add: CompareFunc_cases)
    from Node.IH(1) [OF bl, of "LeftLink # pos" res] show ?thesis
    proof
      assume "(\<forall>x \<in> set (keys l). key' < x) \<and>
              ClosestTraverse l (LeftLink # pos) key' res LESS_THAN = res"
      then have "(\<forall>x \<in> set (keys ?t). key' < x) \<and>
                 ClosestTraverse ?t pos key' res LESS_THAN = res"
        using lt ra step by auto
      then show ?thesis by (rule disjI1)
    next
      assume "\<exists>q l' k v h rk r'.
                ClosestTraverse l (LeftLink # pos) key' res LESS_THAN = Some (q @ LeftLink # pos) \<and>
                deref l q = Node l' k v h rk r' \<and> k \<le> key' \<and>
                (\<forall>x \<in> set (keys l). x \<le> key' \<longrightarrow> x \<le> k)"
      then obtain q l' k v h' rk' r' where
        q: "ClosestTraverse l (LeftLink # pos) key' res LESS_THAN = Some (q @ LeftLink # pos)"
           "deref l q = Node l' k v h' rk' r'" "k \<le> key'"
           "\<forall>x \<in> set (keys l). x \<le> key' \<longrightarrow> x \<le> k"
        by blast
      have "ClosestTraverse ?t pos key' res LESS_THAN = Some ((q @ [LeftLink]) @ pos)"
        using step q(1) by simp
      moreover have "deref ?t (q @ [LeftLink]) = Node l' k v h' rk' r'"
        unfolding deref_under_Left by (rule q(2))
      moreover have "\<forall>x \<in> set (keys ?t). x \<le> key' \<longrightarrow> x \<le> k"
        using q(4) lt ra by auto
      ultimately show ?thesis using q(3) by blast
    qed
  next
    case gt
    then have step: "ClosestTraverse ?t pos key' res LESS_THAN =
                       ClosestTraverse r (RightLink # pos) key' (Some pos) LESS_THAN"
      using less_asym [of a key'] by (auto simp: CompareFunc_cases)
    from Node.IH(2) [OF br, of "RightLink # pos" "Some pos"] show ?thesis
    proof
      assume "(\<forall>x \<in> set (keys r). key' < x) \<and>
              ClosestTraverse r (RightLink # pos) key' (Some pos) LESS_THAN = Some pos"
      then have "ClosestTraverse ?t pos key' res LESS_THAN = Some ([] @ pos)"
        and "\<forall>x \<in> set (keys ?t). x \<le> key' \<longrightarrow> x \<le> a"
        using step la by auto
      moreover have "deref ?t [] = ?t" by simp
      ultimately show ?thesis using gt by (intro disjI2) (metis less_imp_le)
    next
      assume "\<exists>q l' k v h rk r'.
                ClosestTraverse r (RightLink # pos) key' (Some pos) LESS_THAN
                  = Some (q @ RightLink # pos) \<and>
                deref r q = Node l' k v h rk r' \<and> k \<le> key' \<and>
                (\<forall>x \<in> set (keys r). x \<le> key' \<longrightarrow> x \<le> k)"
      then obtain q l' k v h' rk' r' where
        q: "ClosestTraverse r (RightLink # pos) key' (Some pos) LESS_THAN
              = Some (q @ RightLink # pos)"
           "deref r q = Node l' k v h' rk' r'" "k \<le> key'"
           "\<forall>x \<in> set (keys r). x \<le> key' \<longrightarrow> x \<le> k"
        by blast
      have ak: "a \<le> k" using deref_in_keys [OF q(2)] ra by simp
      have "ClosestTraverse ?t pos key' res LESS_THAN = Some ((q @ [RightLink]) @ pos)"
        using step q(1) by simp
      moreover have "deref ?t (q @ [RightLink]) = Node l' k v h' rk' r'"
        unfolding deref_under_Right by (rule q(2))
      moreover have "\<forall>x \<in> set (keys ?t). x \<le> key' \<longrightarrow> x \<le> k"
        using q(4) la ak by auto
      ultimately show ?thesis using q(3) by blast
    qed
  qed
qed

lemma ClosestTraverse_GREATER:
  assumes "bst_weak t"
  shows "((\<forall>x \<in> set (keys t). x < key') \<and> ClosestTraverse t pos key' res GREATER_THAN = res) \<or>
         (\<exists>q l k v h rk r. ClosestTraverse t pos key' res GREATER_THAN = Some (q @ pos) \<and>
            deref t q = Node l k v h rk r \<and> key' \<le> k \<and>
            (\<forall>x \<in> set (keys t). key' \<le> x \<longrightarrow> k \<le> x))"
  using assms
proof (induction t arbitrary: pos res)
  case NULL
  then show ?case by simp
next
  case (Node l a b h rk r)
  from Node.prems have bl: "bst_weak l" and br: "bst_weak r"
    and la: "\<forall>x \<in> set (keys l). x \<le> a" and ra: "\<forall>x \<in> set (keys r). a \<le> x"
    by simp_all
  let ?t = "Node l a b h rk r"
  consider (eq) "key' = a" | (lt) "key' < a" | (gt) "a < key'" by (rule linorder_cases)
  then show ?case
  proof cases
    case eq
    have "ClosestTraverse ?t pos key' res GREATER_THAN = Some ([] @ pos)"
      using eq by (simp add: CompareFunc_cases)
    moreover have "deref ?t [] = ?t" by simp
    moreover have "\<forall>x \<in> set (keys ?t). key' \<le> x \<longrightarrow> a \<le> x" using eq by simp
    ultimately show ?thesis using eq by blast
  next
    case gt
    then have step: "ClosestTraverse ?t pos key' res GREATER_THAN =
                       ClosestTraverse r (RightLink # pos) key' res GREATER_THAN"
      using less_asym [of a key'] by (auto simp: CompareFunc_cases)
    from Node.IH(2) [OF br, of "RightLink # pos" res] show ?thesis
    proof
      assume "(\<forall>x \<in> set (keys r). x < key') \<and>
              ClosestTraverse r (RightLink # pos) key' res GREATER_THAN = res"
      then have "(\<forall>x \<in> set (keys ?t). x < key') \<and>
                 ClosestTraverse ?t pos key' res GREATER_THAN = res"
        using gt la step by auto
      then show ?thesis by (rule disjI1)
    next
      assume "\<exists>q l' k v h rk r'.
                ClosestTraverse r (RightLink # pos) key' res GREATER_THAN
                  = Some (q @ RightLink # pos) \<and>
                deref r q = Node l' k v h rk r' \<and> key' \<le> k \<and>
                (\<forall>x \<in> set (keys r). key' \<le> x \<longrightarrow> k \<le> x)"
      then obtain q l' k v h' rk' r' where
        q: "ClosestTraverse r (RightLink # pos) key' res GREATER_THAN = Some (q @ RightLink # pos)"
           "deref r q = Node l' k v h' rk' r'" "key' \<le> k"
           "\<forall>x \<in> set (keys r). key' \<le> x \<longrightarrow> k \<le> x"
        by blast
      have "ClosestTraverse ?t pos key' res GREATER_THAN = Some ((q @ [RightLink]) @ pos)"
        using step q(1) by simp
      moreover have "deref ?t (q @ [RightLink]) = Node l' k v h' rk' r'"
        unfolding deref_under_Right by (rule q(2))
      moreover have "\<forall>x \<in> set (keys ?t). key' \<le> x \<longrightarrow> k \<le> x"
        using q(4) gt la by auto
      ultimately show ?thesis using q(3) by blast
    qed
  next
    case lt
    then have step: "ClosestTraverse ?t pos key' res GREATER_THAN =
                       ClosestTraverse l (LeftLink # pos) key' (Some pos) GREATER_THAN"
      by (simp add: CompareFunc_cases)
    from Node.IH(1) [OF bl, of "LeftLink # pos" "Some pos"] show ?thesis
    proof
      assume "(\<forall>x \<in> set (keys l). x < key') \<and>
              ClosestTraverse l (LeftLink # pos) key' (Some pos) GREATER_THAN = Some pos"
      then have "ClosestTraverse ?t pos key' res GREATER_THAN = Some ([] @ pos)"
        and "\<forall>x \<in> set (keys ?t). key' \<le> x \<longrightarrow> a \<le> x"
        using step ra by auto
      moreover have "deref ?t [] = ?t" by simp
      ultimately show ?thesis using lt by (intro disjI2) (metis less_imp_le)
    next
      assume "\<exists>q l' k v h rk r'.
                ClosestTraverse l (LeftLink # pos) key' (Some pos) GREATER_THAN
                  = Some (q @ LeftLink # pos) \<and>
                deref l q = Node l' k v h rk r' \<and> key' \<le> k \<and>
                (\<forall>x \<in> set (keys l). key' \<le> x \<longrightarrow> k \<le> x)"
      then obtain q l' k v h' rk' r' where
        q: "ClosestTraverse l (LeftLink # pos) key' (Some pos) GREATER_THAN
              = Some (q @ LeftLink # pos)"
           "deref l q = Node l' k v h' rk' r'" "key' \<le> k"
           "\<forall>x \<in> set (keys l). key' \<le> x \<longrightarrow> k \<le> x"
        by blast
      have ka: "k \<le> a" using deref_in_keys [OF q(2)] la by simp
      have "ClosestTraverse ?t pos key' res GREATER_THAN = Some ((q @ [LeftLink]) @ pos)"
        using step q(1) by simp
      moreover have "deref ?t (q @ [LeftLink]) = Node l' k v h' rk' r'"
        unfolding deref_under_Left by (rule q(2))
      moreover have "\<forall>x \<in> set (keys ?t). key' \<le> x \<longrightarrow> k \<le> x"
        using q(4) ra ka by auto
      ultimately show ?thesis using q(3) by blast
    qed
  qed
qed

text \<open>
  C5, as stated, fails on a present key. With keys 1, 3, 5 both Closest(3, LESS_THAN) and
  Closest(3, GREATER_THAN) return the entry of 3 itself, not the entries of 1 and 5.
\<close>

theorem C5_counterexample:
  "construct DefaultRank (Inserted (Inserted (Inserted Empty 1 ''a'') 3 ''b'') 5 ''c'')
     = Inr keys_1_3_5 \<and>
   inorder (root keys_1_3_5) = [(1, ''a''), (3, ''b''), (5, ''c'')] \<and>
   Closest keys_1_3_5 3 LESS_THAN = Inr (Some (3, ''b'')) \<and>
   Closest keys_1_3_5 3 GREATER_THAN = Inr (Some (3, ''b''))"
  by code_simp

text \<open>
  C5, amended. In a search tree (invariant 1, ties on either side), Closest towards
  LESS_THAN returns an entry with the greatest key less than or equal to the given key:
  the entry of the key itself when it is present, its strict predecessor otherwise, and
  an absent result when every key is greater. Closest towards GREATER_THAN is the
  mirror. Neither fails.
\<close>

theorem C5_Closest_floor_ceiling:
  assumes "bst_weak (root tree)"
  shows "(\<exists>res. Closest tree key' LESS_THAN = Inr res \<and> is_floor_entry (root tree) key' res) \<and>
         (\<exists>res. Closest tree key' GREATER_THAN = Inr res \<and>
            is_ceiling_entry (root tree) key' res)"
proof
  from ClosestTraverse_LESS [OF assms, of key' "[]" None]
  show "\<exists>res. Closest tree key' LESS_THAN = Inr res \<and> is_floor_entry (root tree) key' res"
  proof
    assume "(\<forall>x \<in> set (keys (root tree)). key' < x) \<and>
            ClosestTraverse (root tree) [] key' None LESS_THAN = None"
    then show ?thesis
      by (simp add: Closest_def KeyValuePair_at_def is_floor_entry_def)
  next
    assume "\<exists>q l k v h rk r.
              ClosestTraverse (root tree) [] key' None LESS_THAN = Some (q @ []) \<and>
              deref (root tree) q = Node l k v h rk r \<and> k \<le> key' \<and>
              (\<forall>x \<in> set (keys (root tree)). x \<le> key' \<longrightarrow> x \<le> k)"
    then obtain q l k v h rk r where
      q: "ClosestTraverse (root tree) [] key' None LESS_THAN = Some q"
         "deref (root tree) q = Node l k v h rk r" "k \<le> key'"
         "\<forall>x \<in> set (keys (root tree)). x \<le> key' \<longrightarrow> x \<le> k"
      by auto
    have "Closest tree key' LESS_THAN = Inr (Some (k, v))"
      using q(1) KeyValuePair_at_Node [OF q(2)] by (simp add: Closest_def)
    moreover have "is_floor_entry (root tree) key' (Some (k, v))"
      using q(3,4) deref_in_inorder [OF q(2)] by (simp add: is_floor_entry_def)
    ultimately show ?thesis by blast
  qed
next
  from ClosestTraverse_GREATER [OF assms, of key' "[]" None]
  show "\<exists>res. Closest tree key' GREATER_THAN = Inr res \<and>
          is_ceiling_entry (root tree) key' res"
  proof
    assume "(\<forall>x \<in> set (keys (root tree)). x < key') \<and>
            ClosestTraverse (root tree) [] key' None GREATER_THAN = None"
    then show ?thesis
      by (simp add: Closest_def KeyValuePair_at_def is_ceiling_entry_def)
  next
    assume "\<exists>q l k v h rk r.
              ClosestTraverse (root tree) [] key' None GREATER_THAN = Some (q @ []) \<and>
              deref (root tree) q = Node l k v h rk r \<and> key' \<le> k \<and>
              (\<forall>x \<in> set (keys (root tree)). key' \<le> x \<longrightarrow> k \<le> x)"
    then obtain q l k v h rk r where
      q: "ClosestTraverse (root tree) [] key' None GREATER_THAN = Some q"
         "deref (root tree) q = Node l k v h rk r" "key' \<le> k"
         "\<forall>x \<in> set (keys (root tree)). key' \<le> x \<longrightarrow> k \<le> x"
      by auto
    have "Closest tree key' GREATER_THAN = Inr (Some (k, v))"
      using q(1) KeyValuePair_at_Node [OF q(2)] by (simp add: Closest_def)
    moreover have "is_ceiling_entry (root tree) key' (Some (k, v))"
      using q(3,4) deref_in_inorder [OF q(2)] by (simp add: is_ceiling_entry_def)
    ultimately show ?thesis by blast
  qed
qed

theorem C5_Closest_witness:
  "bst_weak (root keys_1_3_5) \<and>
   (\<exists>res. Closest keys_1_3_5 4 LESS_THAN = Inr res \<and> is_floor_entry (root keys_1_3_5) 4 res) \<and>
   (\<exists>res. Closest keys_1_3_5 4 GREATER_THAN = Inr res \<and>
      is_ceiling_entry (root keys_1_3_5) 4 res) \<and>
   Closest keys_1_3_5 4 LESS_THAN = Inr (Some (3, ''b'')) \<and>
   Closest keys_1_3_5 4 GREATER_THAN = Inr (Some (5, ''c''))"
proof -
  have a: "bst_weak (root keys_1_3_5)" by code_simp
  have b: "Closest keys_1_3_5 4 LESS_THAN = Inr (Some (3, ''b''))" by code_simp
  have c: "Closest keys_1_3_5 4 GREATER_THAN = Inr (Some (5, ''c''))" by code_simp
  show ?thesis
    using a b c C5_Closest_floor_ceiling [OF a, of 4] by simp
qed

section \<open>Rebalancing\<close>

lemma RotateR_inorder: "RotateR ri t = Inr t' \<Longrightarrow> inorder t' = inorder t"
  by (induction ri t rule: RotateR.induct) (auto simp: Let_def)

lemma RotateL_inorder: "RotateL ri t = Inr t' \<Longrightarrow> inorder t' = inorder t"
  by (induction ri t rule: RotateL.induct) (auto simp: Let_def)

lemma Balance_inorder:
  assumes "Balance ri t = Inr t'"
  shows "inorder t' = inorder t"
proof (cases t)
  case NULL
  with assms show ?thesis by (simp add: Balance_def)
next
  case (Node l k v h rk r)
  consider (two) "GetHeight l - GetHeight r = 2" | (mtwo) "GetHeight l - GetHeight r = - 2"
    | (other) "GetHeight l - GetHeight r \<noteq> 2" "GetHeight l - GetHeight r \<noteq> - 2"
    by blast
  then show ?thesis
  proof cases
    case two
    show ?thesis
    proof (cases "GetBalance l")
      case (Inl e)
      with assms Node two show ?thesis by (simp add: Balance_def)
    next
      case (Inr bl)
      show ?thesis
      proof (cases "bl \<ge> 0")
        case True
        with assms Node two Inr have "RotateR ri t = Inr t'" by (simp add: Balance_def)
        then show ?thesis by (rule RotateR_inorder)
      next
        case False
        with assms Node two Inr obtain l' where
          l': "RotateL ri l = Inr l'" "RotateR ri (Node l' k v h rk r) = Inr t'"
          by (cases "RotateL ri l") (simp_all add: Balance_def)
        show ?thesis
          using RotateL_inorder [OF l'(1)] RotateR_inorder [OF l'(2)] Node by simp
      qed
    qed
  next
    case mtwo
    show ?thesis
    proof (cases "GetBalance r")
      case (Inl e)
      with assms Node mtwo show ?thesis by (simp add: Balance_def)
    next
      case (Inr br)
      show ?thesis
      proof (cases "br \<le> 0")
        case True
        with assms Node mtwo Inr have "RotateL ri t = Inr t'" by (simp add: Balance_def)
        then show ?thesis by (rule RotateL_inorder)
      next
        case False
        with assms Node mtwo Inr obtain r' where
          r': "RotateR ri r = Inr r'" "RotateL ri (Node l k v h rk r') = Inr t'"
          by (cases "RotateR ri r") (simp_all add: Balance_def)
        show ?thesis
          using RotateR_inorder [OF r'(1)] RotateL_inorder [OF r'(2)] Node by simp
      qed
    qed
  next
    case other
    with assms Node show ?thesis by (simp add: Balance_def)
  qed
qed

lemma Retrace_inorder:
  "Retrace ri (Node l k v h rk r) = Inr t' \<Longrightarrow> inorder t' = inorder l @ (k, v) # inorder r"
  using Balance_inorder [of ri _ t'] by (fastforce simp: Retrace_def)

lemma Balance_noop:
  assumes "\<bar>GetHeight l - GetHeight r\<bar> \<le> 1"
  shows "Balance ri (Node l k v h rk r) = Inr (Node l k v h rk r)"
proof -
  from assms have "GetHeight l - GetHeight r \<noteq> 2" "GetHeight l - GetHeight r \<noteq> - 2"
    by linarith+
  then show ?thesis by (simp add: Balance_def)
qed

text \<open>A node whose left subtree is two higher than its right one: Balance succeeds with
  a single or a double rotation and restores invariants 2 to 4.\<close>

lemma Balance_left_heavy:
  assumes d: "GetHeight l - GetHeight r = 2"
    and l: "balanced l" "heights_ok l" and r: "balanced r" "heights_ok r"
  shows "\<exists>t'. Balance ri (Node l k v h rk r) = Inr t' \<and> balanced t' \<and> heights_ok t' \<and>
           t' \<noteq> NULL \<and> (ranks_ok ri l \<longrightarrow> ranks_ok ri r \<longrightarrow> ranks_ok ri t') \<and>
           (GetHeight t' = GetHeight l \<or> GetHeight t' = GetHeight l + 1)"
proof -
  have hr: "- 1 \<le> GetHeight r" using r(2) by (rule heights_ok_lower)
  with d have "l \<noteq> NULL" by (cases l) auto
  then obtain ll lk lv lh lrk lr where lN: "l = Node ll lk lv lh lrk lr" by (cases l) auto
  have hll: "- 1 \<le> GetHeight ll"
    using l(2) lN by (simp add: heights_ok_lower)
  show ?thesis
  proof (cases "GetHeight ll - GetHeight lr \<ge> 0")
    case True
    then show ?thesis
      using d l r lN by (simp add: Balance_def GetBalance_def Let_def; linarith)
  next
    case False
    with hll have "lr \<noteq> NULL" by (cases lr) auto
    then obtain lrl lrk' lrv lrh lrrk lrr where lrN: "lr = Node lrl lrk' lrv lrh lrrk lrr"
      by (cases lr) auto
    show ?thesis
      using False d l r lN lrN by (simp add: Balance_def GetBalance_def Let_def; linarith)
  qed
qed

lemma Balance_right_heavy:
  assumes d: "GetHeight l - GetHeight r = - 2"
    and l: "balanced l" "heights_ok l" and r: "balanced r" "heights_ok r"
  shows "\<exists>t'. Balance ri (Node l k v h rk r) = Inr t' \<and> balanced t' \<and> heights_ok t' \<and>
           t' \<noteq> NULL \<and> (ranks_ok ri l \<longrightarrow> ranks_ok ri r \<longrightarrow> ranks_ok ri t') \<and>
           (GetHeight t' = GetHeight r \<or> GetHeight t' = GetHeight r + 1)"
proof -
  have hl: "- 1 \<le> GetHeight l" using l(2) by (rule heights_ok_lower)
  with d have "r \<noteq> NULL" by (cases r) auto
  then obtain rl rk' rv rh rrk rr where rN: "r = Node rl rk' rv rh rrk rr" by (cases r) auto
  have hrr: "- 1 \<le> GetHeight rr"
    using r(2) rN by (simp add: heights_ok_lower)
  show ?thesis
  proof (cases "GetHeight rl - GetHeight rr \<le> 0")
    case True
    then show ?thesis
      using d l r rN by (simp add: Balance_def GetBalance_def Let_def; linarith)
  next
    case False
    with hrr have "rl \<noteq> NULL" by (cases rl) auto
    then obtain rll rlk rlv rlh rlrk rlr where rlN: "rl = Node rll rlk rlv rlh rlrk rlr"
      by (cases rl) auto
    show ?thesis
      using False d l r rN rlN by (simp add: Balance_def GetBalance_def Let_def; linarith)
  qed
qed

text \<open>
  The end of InsertTraverse and RemoveTraverse on a node whose subtrees satisfy the
  invariants and differ in height by at most two.
\<close>

lemma Retrace_props:
  assumes l: "balanced l" "heights_ok l" and r: "balanced r" "heights_ok r"
    and d: "\<bar>GetHeight l - GetHeight r\<bar> \<le> 2"
  shows "\<exists>t'. Retrace ri (Node l k v h rk r) = Inr t' \<and> balanced t' \<and> heights_ok t' \<and>
           t' \<noteq> NULL \<and> (ranks_ok ri l \<longrightarrow> ranks_ok ri r \<longrightarrow> ranks_ok ri t') \<and>
           (GetHeight t' = 1 + max (GetHeight l) (GetHeight r) \<or>
            \<bar>GetHeight l - GetHeight r\<bar> = 2 \<and> GetHeight t' = max (GetHeight l) (GetHeight r))"
proof -
  let ?n = "Node l k v (max (GetHeight l) (GetHeight r) + 1) (ri k v + rank_of l + rank_of r) r"
  have R: "Retrace ri (Node l k v h rk r) = Balance ri ?n"
    by (simp add: Retrace_def)
  consider (ok) "\<bar>GetHeight l - GetHeight r\<bar> \<le> 1" | (left) "GetHeight l - GetHeight r = 2"
    | (right) "GetHeight l - GetHeight r = - 2"
    using d by linarith
  then show ?thesis
  proof cases
    case ok
    have "Balance ri ?n = Inr ?n" using ok by (rule Balance_noop)
    then show ?thesis using R ok l r by simp
  next
    case left
    from Balance_left_heavy [OF left l r, of ri k v "max (GetHeight l) (GetHeight r) + 1"
        "ri k v + rank_of l + rank_of r"]
    obtain t' where "Balance ri ?n = Inr t'" "balanced t'" "heights_ok t'" "t' \<noteq> NULL"
      "ranks_ok ri l \<longrightarrow> ranks_ok ri r \<longrightarrow> ranks_ok ri t'"
      "GetHeight t' = GetHeight l \<or> GetHeight t' = GetHeight l + 1"
      by blast
    then show ?thesis using R left by (intro exI [of _ t']) auto
  next
    case right
    from Balance_right_heavy [OF right l r, of ri k v "max (GetHeight l) (GetHeight r) + 1"
        "ri k v + rank_of l + rank_of r"]
    obtain t' where "Balance ri ?n = Inr t'" "balanced t'" "heights_ok t'" "t' \<noteq> NULL"
      "ranks_ok ri l \<longrightarrow> ranks_ok ri r \<longrightarrow> ranks_ok ri t'"
      "GetHeight t' = GetHeight r \<or> GetHeight t' = GetHeight r + 1"
      by blast
    then show ?thesis using R right by (intro exI [of _ t']) auto
  qed
qed

section \<open>Insert\<close>

lemma sorted_around:
  assumes "sorted xs" and "sorted ys" and "\<forall>x \<in> set xs. x \<le> a" and "\<forall>y \<in> set ys. a \<le> y"
  shows "sorted (xs @ a # ys)"
proof -
  have "\<forall>x \<in> set xs. \<forall>y \<in> set ys. x \<le> y"
    using assms(3,4) order_trans by blast
  then show ?thesis using assms by (simp add: sorted_append)
qed

lemma bst_weak_iff_sorted: "bst_weak t = sorted (keys t)"
proof (induction t)
  case NULL
  then show ?case by simp
next
  case (Node l k v h rk r)
  show ?case
  proof
    assume b: "bst_weak (Node l k v h rk r)"
    then have "sorted (keys l @ k # keys r)"
      using Node.IH by (intro sorted_around) simp_all
    then show "sorted (keys (Node l k v h rk r))" by simp
  next
    assume "sorted (keys (Node l k v h rk r))"
    then show "bst_weak (Node l k v h rk r)"
      using Node.IH by (simp add: sorted_append)
  qed
qed

lemma set_of_added_mset: "mset xs = add_mset x (mset ys) \<Longrightarrow> set xs = insert x (set ys)"
  by (metis set_mset_add_mset_insert set_mset_mset)

lemma keys_of_added_mset:
  "mset (inorder t') = add_mset (k, v) (mset (inorder t)) \<Longrightarrow>
     set (keys t') = insert k (set (keys t))"
  using set_of_added_mset [of "inorder t'" "(k, v)" "inorder t"] by (simp add: keys_def)

lemma InsertTraverse_props:
  assumes "balanced t" and "heights_ok t"
  shows "\<exists>t'. InsertTraverse ri t key' val' = Inr t' \<and> balanced t' \<and> heights_ok t' \<and>
           t' \<noteq> NULL \<and> (GetHeight t' = GetHeight t \<or> GetHeight t' = GetHeight t + 1) \<and>
           mset (inorder t') = add_mset (key', val') (mset (inorder t)) \<and>
           (ranks_ok ri t \<longrightarrow> ranks_ok ri t') \<and> (bst_weak t \<longrightarrow> bst_weak t')"
  using assms
proof (induction t)
  case NULL
  then show ?case by simp
next
  case (Node l a b h rk r)
  from Node.prems have bl: "balanced l" and hl: "heights_ok l"
    and br: "balanced r" and hr: "heights_ok r"
    and d: "\<bar>GetHeight l - GetHeight r\<bar> \<le> 1"
    and h: "h = 1 + max (GetHeight l) (GetHeight r)"
    by simp_all
  show ?case
  proof (cases "key' < a")
    case True
    from Node.IH(1) [OF bl hl] obtain l' where l':
      "InsertTraverse ri l key' val' = Inr l'" "balanced l'" "heights_ok l'"
      "GetHeight l' = GetHeight l \<or> GetHeight l' = GetHeight l + 1"
      "mset (inorder l') = add_mset (key', val') (mset (inorder l))"
      "ranks_ok ri l \<longrightarrow> ranks_ok ri l'" "bst_weak l \<longrightarrow> bst_weak l'"
      by blast
    have d': "\<bar>GetHeight l' - GetHeight r\<bar> \<le> 2" using l'(4) d by linarith
    from Retrace_props [OF l'(2,3) br hr d', of ri a b h rk] obtain t' where t':
      "Retrace ri (Node l' a b h rk r) = Inr t'" "balanced t'" "heights_ok t'" "t' \<noteq> NULL"
      "ranks_ok ri l' \<longrightarrow> ranks_ok ri r \<longrightarrow> ranks_ok ri t'"
      "GetHeight t' = 1 + max (GetHeight l') (GetHeight r) \<or>
       \<bar>GetHeight l' - GetHeight r\<bar> = 2 \<and> GetHeight t' = max (GetHeight l') (GetHeight r)"
      by blast
    have res: "InsertTraverse ri (Node l a b h rk r) key' val' = Inr t'"
      using True l'(1) t'(1) by simp
    have io: "inorder t' = inorder l' @ (a, b) # inorder r"
      using t'(1) by (rule Retrace_inorder)
    have ht: "GetHeight t' = GetHeight (Node l a b h rk r) \<or>
              GetHeight t' = GetHeight (Node l a b h rk r) + 1"
      using t'(6) l'(4) d h by simp linarith
    have ms: "mset (inorder t') = add_mset (key', val') (mset (inorder (Node l a b h rk r)))"
      using io l'(5) by simp
    have rk': "ranks_ok ri (Node l a b h rk r) \<longrightarrow> ranks_ok ri t'"
      using t'(5) l'(6) by simp
    have bst: "bst_weak (Node l a b h rk r) \<longrightarrow> bst_weak t'"
    proof
      assume b: "bst_weak (Node l a b h rk r)"
      have "set (keys l') = insert key' (set (keys l))"
        using l'(5) by (rule keys_of_added_mset)
      then have "sorted (keys l' @ a # keys r)"
        using b l'(7) True
        by (intro sorted_around) (simp_all add: bst_weak_iff_sorted [symmetric])
      then show "bst_weak t'"
        using io by (simp add: bst_weak_iff_sorted keys_def)
    qed
    show ?thesis
      using res t'(2,3,4) ht ms rk' bst by blast
  next
    case False
    from Node.IH(2) [OF br hr] obtain r' where r':
      "InsertTraverse ri r key' val' = Inr r'" "balanced r'" "heights_ok r'"
      "GetHeight r' = GetHeight r \<or> GetHeight r' = GetHeight r + 1"
      "mset (inorder r') = add_mset (key', val') (mset (inorder r))"
      "ranks_ok ri r \<longrightarrow> ranks_ok ri r'" "bst_weak r \<longrightarrow> bst_weak r'"
      by blast
    have d': "\<bar>GetHeight l - GetHeight r'\<bar> \<le> 2" using r'(4) d by linarith
    from Retrace_props [OF bl hl r'(2,3) d', of ri a b h rk] obtain t' where t':
      "Retrace ri (Node l a b h rk r') = Inr t'" "balanced t'" "heights_ok t'" "t' \<noteq> NULL"
      "ranks_ok ri l \<longrightarrow> ranks_ok ri r' \<longrightarrow> ranks_ok ri t'"
      "GetHeight t' = 1 + max (GetHeight l) (GetHeight r') \<or>
       \<bar>GetHeight l - GetHeight r'\<bar> = 2 \<and> GetHeight t' = max (GetHeight l) (GetHeight r')"
      by blast
    have res: "InsertTraverse ri (Node l a b h rk r) key' val' = Inr t'"
      using False r'(1) t'(1) by simp
    have io: "inorder t' = inorder l @ (a, b) # inorder r'"
      using t'(1) by (rule Retrace_inorder)
    have ht: "GetHeight t' = GetHeight (Node l a b h rk r) \<or>
              GetHeight t' = GetHeight (Node l a b h rk r) + 1"
      using t'(6) r'(4) d h by simp linarith
    have ms: "mset (inorder t') = add_mset (key', val') (mset (inorder (Node l a b h rk r)))"
      using io r'(5) by simp
    have rk': "ranks_ok ri (Node l a b h rk r) \<longrightarrow> ranks_ok ri t'"
      using t'(5) r'(6) by simp
    have bst: "bst_weak (Node l a b h rk r) \<longrightarrow> bst_weak t'"
    proof
      assume b: "bst_weak (Node l a b h rk r)"
      have "set (keys r') = insert key' (set (keys r))"
        using r'(5) by (rule keys_of_added_mset)
      then have "sorted (keys l @ a # keys r')"
        using b r'(7) False
        by (intro sorted_around) (simp_all add: bst_weak_iff_sorted [symmetric])
      then show "bst_weak t'"
        using io by (simp add: bst_weak_iff_sorted keys_def)
    qed
    show ?thesis
      using res t'(2,3,4) ht ms rk' bst by blast
  qed
qed

section \<open>Remove\<close>

lemma FindMin_props:
  "t \<noteq> NULL \<Longrightarrow>
     \<exists>p k v h rk r. FindMin t pos = Some (p @ pos) \<and> deref t p = Node NULL k v h rk r \<and>
       hd (inorder t) = (k, v)"
proof (induction t arbitrary: pos)
  case NULL
  then show ?case by simp
next
  case (Node l a b h rk r)
  show ?case
  proof (cases "l = NULL")
    case True
    then have "FindMin (Node l a b h rk r) pos = Some ([] @ pos)"
      and "deref (Node l a b h rk r) [] = Node NULL a b h rk r"
      and "hd (inorder (Node l a b h rk r)) = (a, b)"
      by simp_all
    then show ?thesis by blast
  next
    case False
    from Node.IH(1) [OF False, of "LeftLink # pos"] obtain p k v h' rk' r' where
      p: "FindMin l (LeftLink # pos) = Some (p @ LeftLink # pos)"
         "deref l p = Node NULL k v h' rk' r'" "hd (inorder l) = (k, v)"
      by blast
    have "FindMin (Node l a b h rk r) pos = Some ((p @ [LeftLink]) @ pos)"
      using False p(1) by simp
    moreover have "deref (Node l a b h rk r) (p @ [LeftLink]) = Node NULL k v h' rk' r'"
      unfolding deref_under_Left by (rule p(2))
    moreover have "hd (inorder (Node l a b h rk r)) = (k, v)"
      using False p(3) by simp
    ultimately show ?thesis by blast
  qed
qed

lemma FindMax_props:
  "t \<noteq> NULL \<Longrightarrow>
     \<exists>p l k v h rk. FindMax t pos = Some (p @ pos) \<and> deref t p = Node l k v h rk NULL \<and>
       last (inorder t) = (k, v)"
proof (induction t arbitrary: pos)
  case NULL
  then show ?case by simp
next
  case (Node l a b h rk r)
  show ?case
  proof (cases "r = NULL")
    case True
    then have "FindMax (Node l a b h rk r) pos = Some ([] @ pos)"
      and "deref (Node l a b h rk r) [] = Node l a b h rk NULL"
      and "last (inorder (Node l a b h rk r)) = (a, b)"
      by simp_all
    then show ?thesis by blast
  next
    case False
    from Node.IH(2) [OF False, of "RightLink # pos"] obtain p l' k v h' rk' where
      p: "FindMax r (RightLink # pos) = Some (p @ RightLink # pos)"
         "deref r p = Node l' k v h' rk' NULL" "last (inorder r) = (k, v)"
      by blast
    have "FindMax (Node l a b h rk r) pos = Some ((p @ [RightLink]) @ pos)"
      using False p(1) by simp
    moreover have "deref (Node l a b h rk r) (p @ [RightLink]) = Node l' k v h' rk' NULL"
      unfolding deref_under_Right by (rule p(2))
    moreover have "last (inorder (Node l a b h rk r)) = (k, v)"
      using False p(3) by simp
    ultimately show ?thesis by blast
  qed
qed

lemma sorted_hd_least: "sorted xs \<Longrightarrow> x \<in> set xs \<Longrightarrow> hd xs \<le> x"
  by (cases xs) auto

lemma sorted_last_greatest: "sorted xs \<Longrightarrow> x \<in> set xs \<Longrightarrow> x \<le> last xs"
  by (induction xs) auto

lemma FindTraverse_absent: "key' \<notin> set (keys t) \<Longrightarrow> FindTraverse t pos key' = None"
  by (induction t arbitrary: pos) (auto simp: CompareFunc_cases)

lemma FindTraverse_present:
  assumes "bst_weak t" and "key' \<in> set (keys t)"
  shows "\<exists>q l v h rk r. FindTraverse t pos key' = Some (q @ pos) \<and>
           deref t q = Node l key' v h rk r"
  using assms
proof (induction t arbitrary: pos)
  case NULL
  then show ?case by simp
next
  case (Node l a b h rk r)
  let ?t = "Node l a b h rk r"
  consider (eq) "key' = a" | (lt) "key' < a" | (gt) "a < key'" by (rule linorder_cases)
  then show ?case
  proof cases
    case eq
    then have "FindTraverse ?t pos key' = Some ([] @ pos)" "deref ?t [] = Node l key' b h rk r"
      by (simp_all add: CompareFunc_cases)
    then show ?thesis by blast
  next
    case lt
    with Node.prems have "key' \<in> set (keys l)" by auto
    with Node.IH(1) [of "LeftLink # pos"] Node.prems obtain q l' v h' rk' r' where
      q: "FindTraverse l (LeftLink # pos) key' = Some (q @ LeftLink # pos)"
         "deref l q = Node l' key' v h' rk' r'"
      by auto
    have "FindTraverse ?t pos key' = Some ((q @ [LeftLink]) @ pos)"
      using lt q(1) by (simp add: CompareFunc_cases)
    moreover have "deref ?t (q @ [LeftLink]) = Node l' key' v h' rk' r'"
      unfolding deref_under_Left by (rule q(2))
    ultimately show ?thesis by blast
  next
    case gt
    with Node.prems have "key' \<in> set (keys r)" by auto
    with Node.IH(2) [of "RightLink # pos"] Node.prems obtain q l' v h' rk' r' where
      q: "FindTraverse r (RightLink # pos) key' = Some (q @ RightLink # pos)"
         "deref r q = Node l' key' v h' rk' r'"
      by auto
    have "FindTraverse ?t pos key' = Some ((q @ [RightLink]) @ pos)"
      using gt q(1) less_asym [of a key'] by (auto simp: CompareFunc_cases)
    moreover have "deref ?t (q @ [RightLink]) = Node l' key' v h' rk' r'"
      unfolding deref_under_Right by (rule q(2))
    ultimately show ?thesis by blast
  qed
qed

lemma Find_absent: "key' \<notin> set (keys (root tree)) \<Longrightarrow> Find tree key' = Inr None"
  by (simp add: Find_def FindTraverse_absent KeyValuePair_at_def)

lemma Find_present:
  assumes "bst_weak (root tree)" and "key' \<in> set (keys (root tree))"
  shows "\<exists>v. Find tree key' = Inr (Some (key', v))"
proof -
  from FindTraverse_present [OF assms, of "[]"] obtain q l v h rk r where
    "FindTraverse (root tree) [] key' = Some q" "deref (root tree) q = Node l key' v h rk r"
    by auto
  then show ?thesis
    using KeyValuePair_at_Node [of "root tree" q l key' v h rk r] by (auto simp: Find_def)
qed

lemma diff_single_left: "x \<notin># B \<Longrightarrow> (A + B) - {#x#} = (A - {#x#}) + B"
  by (simp add: multiset_eq_iff not_in_iff)

lemma diff_single_right: "x \<notin># A \<Longrightarrow> (A + B) - {#x#} = A + (B - {#x#})"
  by (simp add: multiset_eq_iff not_in_iff)

lemma set_keys_diff: "mset (keys t') = mset (keys t) - {#x#} \<Longrightarrow> set (keys t') \<subseteq> set (keys t)"
  by (metis in_diffD set_mset_mset subsetI)

text \<open>
  RemoveTraverse on a subtree satisfying invariants 1 to 3: it succeeds, keeps the
  invariants, lowers the height by at most one and removes one occurrence of the key
  from the keys (none when the key is absent).
\<close>

lemma RemoveTraverse_props:
  assumes "balanced t" and "heights_ok t" and "bst_weak t"
  shows "\<exists>t'. RemoveTraverse ri t key' = Inr t' \<and> balanced t' \<and> heights_ok t' \<and>
           (GetHeight t' = GetHeight t \<or> GetHeight t' = GetHeight t - 1) \<and> bst_weak t' \<and>
           (ranks_ok ri t \<longrightarrow> ranks_ok ri t') \<and>
           mset (keys t') = mset (keys t) - {#key'#}"
  using assms
proof (induction t arbitrary: key')
  case NULL
  then show ?case by simp
next
  case (Node l a b h rk r)
  let ?t = "Node l a b h rk r"
  from Node.prems have bl: "balanced l" and hl: "heights_ok l"
    and br: "balanced r" and hr: "heights_ok r"
    and d: "\<bar>GetHeight l - GetHeight r\<bar> \<le> 1"
    and h: "h = 1 + max (GetHeight l) (GetHeight r)"
    and sl: "bst_weak l" and sr: "bst_weak r"
    and la: "\<forall>x \<in> set (keys l). x \<le> a" and ra: "\<forall>x \<in> set (keys r). a \<le> x"
    by simp_all
  consider (lt) "key' < a" | (gt) "a < key'" | (eq) "key' = a"
    using linorder_cases by blast
  then show ?case
  proof cases
    case lt
    from Node.IH(1) [OF bl hl sl, of key'] obtain l' where l':
      "RemoveTraverse ri l key' = Inr l'" "balanced l'" "heights_ok l'"
      "GetHeight l' = GetHeight l \<or> GetHeight l' = GetHeight l - 1" "bst_weak l'"
      "ranks_ok ri l \<longrightarrow> ranks_ok ri l'" "mset (keys l') = mset (keys l) - {#key'#}"
      by blast
    have d': "\<bar>GetHeight l' - GetHeight r\<bar> \<le> 2" using l'(4) d by linarith
    from Retrace_props [OF l'(2,3) br hr d', of ri a b h rk] obtain t' where t':
      "Retrace ri (Node l' a b h rk r) = Inr t'" "balanced t'" "heights_ok t'"
      "ranks_ok ri l' \<longrightarrow> ranks_ok ri r \<longrightarrow> ranks_ok ri t'"
      "GetHeight t' = 1 + max (GetHeight l') (GetHeight r) \<or>
       \<bar>GetHeight l' - GetHeight r\<bar> = 2 \<and> GetHeight t' = max (GetHeight l') (GetHeight r)"
      by blast
    have res: "RemoveTraverse ri ?t key' = Inr t'"
      using lt l'(1) t'(1) by (simp add: CompareFunc_cases)
    have io: "inorder t' = inorder l' @ (a, b) # inorder r"
      using t'(1) by (rule Retrace_inorder)
    then have ks: "keys t' = keys l' @ a # keys r" by (simp add: keys_def)
    have ht: "GetHeight t' = GetHeight ?t \<or> GetHeight t' = GetHeight ?t - 1"
      using t'(5) l'(4) d h by simp linarith
    have "key' \<notin># {#a#} + mset (keys r)" using lt ra by auto
    then have ms: "mset (keys t') = mset (keys ?t) - {#key'#}"
      using l'(7) diff_single_left [of key' "{#a#} + mset (keys r)" "mset (keys l)"]
      by (simp add: ks)
    have "set (keys l') \<subseteq> set (keys l)" using l'(7) by (rule set_keys_diff)
    then have "sorted (keys l' @ a # keys r)"
      using l'(5) sr la ra by (intro sorted_around) (auto simp: bst_weak_iff_sorted)
    then have bst: "bst_weak t'" by (simp add: bst_weak_iff_sorted ks)
    have rk': "ranks_ok ri ?t \<longrightarrow> ranks_ok ri t'" using t'(4) l'(6) by simp
    show ?thesis using res t'(2,3) ht bst rk' ms by blast
  next
    case gt
    from Node.IH(2) [OF br hr sr, of key'] obtain r' where r':
      "RemoveTraverse ri r key' = Inr r'" "balanced r'" "heights_ok r'"
      "GetHeight r' = GetHeight r \<or> GetHeight r' = GetHeight r - 1" "bst_weak r'"
      "ranks_ok ri r \<longrightarrow> ranks_ok ri r'" "mset (keys r') = mset (keys r) - {#key'#}"
      by blast
    have d': "\<bar>GetHeight l - GetHeight r'\<bar> \<le> 2" using r'(4) d by linarith
    from Retrace_props [OF bl hl r'(2,3) d', of ri a b h rk] obtain t' where t':
      "Retrace ri (Node l a b h rk r') = Inr t'" "balanced t'" "heights_ok t'"
      "ranks_ok ri l \<longrightarrow> ranks_ok ri r' \<longrightarrow> ranks_ok ri t'"
      "GetHeight t' = 1 + max (GetHeight l) (GetHeight r') \<or>
       \<bar>GetHeight l - GetHeight r'\<bar> = 2 \<and> GetHeight t' = max (GetHeight l) (GetHeight r')"
      by blast
    have res: "RemoveTraverse ri ?t key' = Inr t'"
      using gt r'(1) t'(1) less_asym [of a key'] by (auto simp: CompareFunc_cases)
    have io: "inorder t' = inorder l @ (a, b) # inorder r'"
      using t'(1) by (rule Retrace_inorder)
    then have ks: "keys t' = keys l @ a # keys r'" by (simp add: keys_def)
    have ht: "GetHeight t' = GetHeight ?t \<or> GetHeight t' = GetHeight ?t - 1"
      using t'(5) r'(4) d h by simp linarith
    have "key' \<notin># mset (keys l) + {#a#}" using gt la by auto
    then have ms: "mset (keys t') = mset (keys ?t) - {#key'#}"
      using r'(7) diff_single_right [of key' "mset (keys l) + {#a#}" "mset (keys r)"]
      by (simp add: ks)
    have "set (keys r') \<subseteq> set (keys r)" using r'(7) by (rule set_keys_diff)
    then have "sorted (keys l @ a # keys r')"
      using r'(5) sl la ra by (intro sorted_around) (auto simp: bst_weak_iff_sorted)
    then have bst: "bst_weak t'" by (simp add: bst_weak_iff_sorted ks)
    have rk': "ranks_ok ri ?t \<longrightarrow> ranks_ok ri t'" using t'(4) r'(6) by simp
    show ?thesis using res t'(2,3) ht bst rk' ms by blast
  next
    case eq
    have hlow: "- 1 \<le> GetHeight l" "- 1 \<le> GetHeight r"
      using hl hr by (simp_all add: heights_ok_lower)
    show ?thesis
    proof (cases "l \<noteq> NULL \<and> r \<noteq> NULL")
      case True
      from FindMin_props [of r "[]"] True obtain p mk mv mh mrk mr where
        p: "FindMin r [] = Some p" "deref r p = Node NULL mk mv mh mrk mr"
           "hd (inorder r) = (mk, mv)"
        by auto
      have mk_in: "mk \<in> set (keys r)" using deref_in_keys [OF p(2)] .
      have "hd (keys r) = mk" using p(3) True by (simp add: keys_def hd_map)
      then have mk_least: "\<forall>x \<in> set (keys r). mk \<le> x"
        using sr sorted_hd_least [of "keys r"] by (auto simp: bst_weak_iff_sorted)
      from Node.IH(2) [OF br hr sr, of mk] obtain r' where r':
        "RemoveTraverse ri r mk = Inr r'" "balanced r'" "heights_ok r'"
        "GetHeight r' = GetHeight r \<or> GetHeight r' = GetHeight r - 1" "bst_weak r'"
        "ranks_ok ri r \<longrightarrow> ranks_ok ri r'" "mset (keys r') = mset (keys r) - {#mk#}"
        by blast
      have d': "\<bar>GetHeight l - GetHeight r'\<bar> \<le> 2" using r'(4) d by linarith
      from Retrace_props [OF bl hl r'(2,3) d', of ri mk mv h mrk] obtain t' where t':
        "Retrace ri (Node l mk mv h mrk r') = Inr t'" "balanced t'" "heights_ok t'"
        "ranks_ok ri l \<longrightarrow> ranks_ok ri r' \<longrightarrow> ranks_ok ri t'"
        "GetHeight t' = 1 + max (GetHeight l) (GetHeight r') \<or>
         \<bar>GetHeight l - GetHeight r'\<bar> = 2 \<and> GetHeight t' = max (GetHeight l) (GetHeight r')"
        by blast
      have res: "RemoveTraverse ri ?t key' = Inr t'"
        using eq True p(1,2) r'(1) t'(1) by (simp add: CompareFunc_cases)
      have io: "inorder t' = inorder l @ (mk, mv) # inorder r'"
        using t'(1) by (rule Retrace_inorder)
      then have ks: "keys t' = keys l @ mk # keys r'" by (simp add: keys_def)
      have ht: "GetHeight t' = GetHeight ?t \<or> GetHeight t' = GetHeight ?t - 1"
        using t'(5) r'(4) d h by simp linarith
      have "add_mset mk (mset (keys r) - {#mk#}) = mset (keys r)"
        using mk_in by simp
      then have ms: "mset (keys t') = mset (keys ?t) - {#key'#}"
        using r'(7) eq by (simp add: ks)
      have sub: "set (keys r') \<subseteq> set (keys r)" using r'(7) by (rule set_keys_diff)
      have "a \<le> mk" using ra mk_in by simp
      then have "\<forall>x \<in> set (keys l). x \<le> mk" using la order_trans by blast
      then have "sorted (keys l @ mk # keys r')"
        using r'(5) sl sub mk_least by (intro sorted_around) (auto simp: bst_weak_iff_sorted)
      then have bst: "bst_weak t'" by (simp add: bst_weak_iff_sorted ks)
      have rk': "ranks_ok ri ?t \<longrightarrow> ranks_ok ri t'" using t'(4) r'(6) by simp
      show ?thesis using res t'(2,3) ht bst rk' ms by blast
    next
      case False
      then consider (l) "l \<noteq> NULL" "r = NULL" | (r) "l = NULL" "r \<noteq> NULL"
        | (none) "l = NULL" "r = NULL"
        by blast
      then show ?thesis
      proof cases
        case l
        then have "RemoveTraverse ri ?t key' = Inr l"
          using eq by (simp add: CompareFunc_cases)
        moreover have "GetHeight l = GetHeight ?t - 1" using l h hlow by simp
        moreover have "mset (keys l) = mset (keys ?t) - {#key'#}" using l eq by simp
        ultimately show ?thesis using bl hl sl Node.prems by auto
      next
        case r
        then have "RemoveTraverse ri ?t key' = Inr r"
          using eq by (simp add: CompareFunc_cases)
        moreover have "GetHeight r = GetHeight ?t - 1" using r h hlow by simp
        moreover have "mset (keys r) = mset (keys ?t) - {#key'#}" using r eq by simp
        ultimately show ?thesis using br hr sr Node.prems by auto
      next
        case none
        then show ?thesis using eq h by (simp add: CompareFunc_cases)
      qed
    qed
  qed
qed

section \<open>The invariants along a history\<close>

lemma FindMin_is_min_node: "bst_weak t \<Longrightarrow> is_min_node t (FindMin t [])"
proof (cases "t = NULL")
  case True
  then show ?thesis by (simp add: is_min_node_def)
next
  case False
  assume b: "bst_weak t"
  from FindMin_props [OF False, of "[]"] obtain p k v h rk r where
    p: "FindMin t [] = Some p" "deref t p = Node NULL k v h rk r" "hd (inorder t) = (k, v)"
    by auto
  have "hd (keys t) = k" using p(3) False by (simp add: keys_def hd_map)
  then have "\<forall>x \<in> set (keys t). k \<le> x"
    using b sorted_hd_least [of "keys t"] by (auto simp: bst_weak_iff_sorted)
  then show ?thesis using p(1,2) by (simp add: is_min_node_def)
qed

lemma FindMax_is_max_node: "bst_weak t \<Longrightarrow> is_max_node t (FindMax t [])"
proof (cases "t = NULL")
  case True
  then show ?thesis by (simp add: is_max_node_def)
next
  case False
  assume b: "bst_weak t"
  from FindMax_props [OF False, of "[]"] obtain p l k v h rk where
    p: "FindMax t [] = Some p" "deref t p = Node l k v h rk NULL" "last (inorder t) = (k, v)"
    by auto
  have "last (keys t) = k" using p(3) False by (simp add: keys_def last_map)
  then have "\<forall>x \<in> set (keys t). x \<le> k"
    using b sorted_last_greatest [of "keys t"] by (auto simp: bst_weak_iff_sorted)
  then show ?thesis using p(1,2) by (simp add: is_max_node_def)
qed

lemma Insert_invariants:
  assumes "invariants ri tree"
  shows "\<exists>tree'. Insert ri tree key' val' = Inr tree' \<and> invariants ri tree'"
proof -
  from assms have inv: "bst_weak (root tree)" "balanced (root tree)" "heights_ok (root tree)"
    "ranks_ok ri (root tree)" "size_field tree = count_nodes (root tree)"
    by (simp_all add: invariants_def size_ok_def)
  from InsertTraverse_props [OF inv(2,3), of ri key' val'] inv(1,4) obtain rt where rt:
    "InsertTraverse ri (root tree) key' val' = Inr rt" "balanced rt" "heights_ok rt"
    "mset (inorder rt) = add_mset (key', val') (mset (inorder (root tree)))"
    "ranks_ok ri rt" "bst_weak rt"
    by blast
  have "length (inorder rt) = Suc (length (inorder (root tree)))"
    using rt(4) by (metis size_mset size_add_mset)
  then have cnt: "count_nodes rt = count_nodes (root tree) + 1"
    by (simp add: count_nodes_length)
  let ?t' = "\<lparr>size_field = size_field tree + 1, root = rt,
              max_node = FindMax rt [], min_node = FindMin rt []\<rparr>"
  have "Insert ri tree key' val' = Inr ?t'"
    using rt(1) by (simp add: Insert_def)
  moreover have "invariants ri ?t'"
    using rt(2,3,5,6) cnt inv(5) FindMin_is_min_node [OF rt(6)] FindMax_is_max_node [OF rt(6)]
    by (simp add: invariants_def size_ok_def caches_ok_def)
  ultimately show ?thesis by blast
qed

lemma Remove_invariants:
  assumes "invariants ri tree"
  shows "\<exists>b tree'. Remove ri tree key' = Inr (b, tree') \<and> invariants ri tree'"
proof (cases "key' \<in> set (keys (root tree))")
  case False
  then have "Remove ri tree key' = Inr (False, tree)"
    by (simp add: Remove_def Find_absent)
  then show ?thesis using assms by blast
next
  case True
  from assms have inv: "bst_weak (root tree)" "balanced (root tree)" "heights_ok (root tree)"
    "ranks_ok ri (root tree)" "size_field tree = count_nodes (root tree)"
    by (simp_all add: invariants_def size_ok_def)
  from Find_present [OF inv(1) True] obtain v where f: "Find tree key' = Inr (Some (key', v))"
    by blast
  from RemoveTraverse_props [OF inv(2,3,1), of ri key'] inv(4) obtain rt where rt:
    "RemoveTraverse ri (root tree) key' = Inr rt" "balanced rt" "heights_ok rt" "bst_weak rt"
    "ranks_ok ri rt" "mset (keys rt) = mset (keys (root tree)) - {#key'#}"
    by blast
  have "size (mset (keys rt)) = size (mset (keys (root tree))) - 1"
    using rt(6) True by (simp add: size_Diff_singleton)
  then have "length (inorder rt) = length (inorder (root tree)) - 1"
    by (simp add: keys_def)
  moreover have "0 < length (inorder (root tree))" using True by (auto simp: keys_def)
  ultimately have cnt: "count_nodes rt = count_nodes (root tree) - 1"
    unfolding count_nodes_length by linarith
  let ?t' = "\<lparr>size_field = size_field tree - 1, root = rt,
              max_node = FindMax rt [], min_node = FindMin rt []\<rparr>"
  have "Remove ri tree key' = Inr (True, ?t')"
    using f rt(1) by (simp add: Remove_def)
  moreover have "invariants ri ?t'"
    using rt(2,3,4,5) cnt inv(5) FindMin_is_min_node [OF rt(4)] FindMax_is_max_node [OF rt(4)]
    by (simp add: invariants_def size_ok_def caches_ok_def)
  ultimately show ?thesis by blast
qed

lemma merge_invariants:
  assumes "invariants ri t1" and "invariants ri t2"
  shows "\<exists>m. AVLRankTree_merge ri t1 t2 = Inr m \<and> invariants ri m"
proof -
  from assms have s: "size_ok t1" "size_ok t2"
    and b: "sorted (keys (root t1))" "sorted (keys (root t2))"
    by (simp_all add: invariants_def bst_weak_iff_sorted)
  from merge_builds [OF s, of ri] obtain t mn mx where
    m: "AVLRankTree_merge ri t1 t2 =
          Inr \<lparr>size_field = count_nodes (root t1) + count_nodes (root t2), root = t,
               max_node = mx, min_node = mn\<rparr>"
    and io: "inorder t = two_pointer_merge (inorder (root t1)) (inorder (root t2))"
    and ok: "heights_ok t" "ranks_ok ri t" "balanced t"
    and nul: "t = NULL \<longrightarrow> mn = None \<and> mx = None"
    and ptr: "t \<noteq> NULL \<longrightarrow>
              (\<exists>p l k v h rk r. mn = Some p \<and> deref t p = Node l k v h rk r \<and>
                 (k, v) = hd (inorder t)) \<and>
              (\<exists>p l k v h rk r. mx = Some p \<and> deref t p = Node l k v h rk r \<and>
                 (k, v) = last (inorder t))"
    by blast
  have srt: "sorted (keys t)"
    using b io sorted_two_pointer_merge [of "inorder (root t1)" "inorder (root t2)"]
    by (simp add: keys_def)
  have cnt: "count_nodes t = count_nodes (root t1) + count_nodes (root t2)"
    using io by (simp add: count_nodes_length length_two_pointer_merge)
  have mn: "is_min_node t mn"
  proof (cases "t = NULL")
    case True
    then show ?thesis using nul by (simp add: is_min_node_def)
  next
    case False
    with ptr obtain p l k v h rk r where
      p: "mn = Some p" "deref t p = Node l k v h rk r" "(k, v) = hd (inorder t)"
      by blast
    have "hd (keys t) = k" using p(3) False by (simp add: keys_def hd_map flip: p(3))
    then have "\<forall>x \<in> set (keys t). k \<le> x"
      using srt sorted_hd_least [of "keys t"] by auto
    then show ?thesis using p(1,2) by (simp add: is_min_node_def)
  qed
  have mx: "is_max_node t mx"
  proof (cases "t = NULL")
    case True
    then show ?thesis using nul by (simp add: is_max_node_def)
  next
    case False
    with ptr obtain p l k v h rk r where
      p: "mx = Some p" "deref t p = Node l k v h rk r" "(k, v) = last (inorder t)"
      by blast
    have "last (keys t) = k" using p(3) False by (simp add: keys_def last_map flip: p(3))
    then have "\<forall>x \<in> set (keys t). x \<le> k"
      using srt sorted_last_greatest [of "keys t"] by auto
    then show ?thesis using p(1,2) by (simp add: is_max_node_def)
  qed
  have "invariants ri \<lparr>size_field = count_nodes (root t1) + count_nodes (root t2), root = t,
               max_node = mx, min_node = mn\<rparr>"
    using srt ok cnt mn mx by (simp add: invariants_def size_ok_def caches_ok_def bst_weak_iff_sorted)
  with m show ?thesis by blast
qed

text \<open>
  C1, as stated, fails on invariant 1. After Insert(1, a), Insert(1, b), Insert(1, c) the
  left rotation at the root leaves the first entry of key 1 in the left subtree of the
  second: a left key equal to the node's key, where the specification asks for less.
\<close>

theorem C1_counterexample:
  "construct DefaultRank three_equal_keys = Inr three_equal_keys_tree \<and>
   \<not> bst_ties_right (root three_equal_keys_tree) \<and>
   \<not> invariants_spec DefaultRank three_equal_keys_tree"
  by code_simp

text \<open>
  C1, amended. Every history made of the empty constructor, the combine constructor,
  Insert and Remove runs without failure, and the tree it produces satisfies the six
  invariants, invariant 1 in its non-strict form: left-subtree keys are less than or equal
  to the node's key, right-subtree keys greater than or equal. (The copy constructor is
  not part of these histories.)
\<close>

theorem C1_invariants_of_histories:
  "\<exists>tree. construct ri h = Inr tree \<and> invariants ri tree"
proof (induction h)
  case Empty
  show ?case
    by (simp add: AVLRankTree_empty_def invariants_def size_ok_def caches_ok_def
        is_min_node_def is_max_node_def)
next
  case (Combined h1 h2)
  then obtain t1 t2 where "construct ri h1 = Inr t1" "invariants ri t1"
    "construct ri h2 = Inr t2" "invariants ri t2"
    by blast
  then show ?case using merge_invariants [of ri t1 t2] by simp
next
  case (Inserted h k v)
  then obtain t where "construct ri h = Inr t" "invariants ri t" by blast
  then show ?case using Insert_invariants [of ri t k v] by simp
next
  case (Removed h k)
  then obtain t where "construct ri h = Inr t" "invariants ri t" by blast
  then show ?case using Remove_invariants [of ri t k] by auto
qed

theorem C1_invariants_witness:
  "construct DefaultRank three_equal_keys = Inr three_equal_keys_tree \<and>
   invariants DefaultRank three_equal_keys_tree"
proof -
  have "construct DefaultRank three_equal_keys = Inr three_equal_keys_tree" by code_simp
  then show ?thesis
    using C1_invariants_of_histories [of DefaultRank three_equal_keys] by simp
qed

section \<open>What Remove removes\<close>

lemma bst_strict_weak: "bst_strict t \<Longrightarrow> bst_weak t"
  by (induction t) (auto intro: less_imp_le)

lemma bst_strict_distinct: "bst_strict t \<Longrightarrow> distinct (keys t)"
  by (induction t) fastforce+

lemma filter_hd_key:
  assumes "distinct (map fst xs)" and "xs \<noteq> []"
  shows "filter (\<lambda>e. fst e \<noteq> fst (hd xs)) xs = tl xs"
proof -
  obtain x ys where xs: "xs = x # ys" using assms(2) by (cases xs) auto
  then have nin: "fst x \<notin> fst ` set ys" using assms(1) by simp
  have "\<forall>e \<in> set ys. fst e \<noteq> fst x"
  proof
    fix e
    assume "e \<in> set ys"
    then have "fst e \<in> fst ` set ys" by (rule imageI)
    with nin show "fst e \<noteq> fst x" by metis
  qed
  then have "filter (\<lambda>e. fst e \<noteq> fst x) ys = ys" by (simp add: filter_id_conv)
  then show ?thesis using xs by simp
qed

lemma filter_keys_id:
  "\<forall>x \<in> set (keys t). x \<noteq> key' \<Longrightarrow> filter (\<lambda>e. fst e \<noteq> key') (inorder t) = inorder t"
  by (simp add: filter_id_conv keys_def)

text \<open>In a search tree with distinct keys, a successful RemoveTraverse leaves the entries
  whose key differs from the given key, in their order.\<close>

lemma RemoveTraverse_inorder_strict:
  assumes "bst_strict t" and "RemoveTraverse ri t key' = Inr t'"
  shows "inorder t' = filter (\<lambda>e. fst e \<noteq> key') (inorder t)"
  using assms
proof (induction t arbitrary: key' t')
  case NULL
  then show ?case by simp
next
  case (Node l a b h rk r)
  let ?t = "Node l a b h rk r"
  from Node.prems(1) have sl: "bst_strict l" and sr: "bst_strict r"
    and la: "\<forall>x \<in> set (keys l). x < a" and ra: "\<forall>x \<in> set (keys r). a < x"
    by simp_all
  consider (lt) "key' < a" | (gt) "a < key'" | (eq) "key' = a"
    using linorder_cases by blast
  then show ?case
  proof cases
    case lt
    then have "RemoveTraverse ri ?t key' =
                 (case RemoveTraverse ri l key' of
                    Inl e \<Rightarrow> Inl e
                  | Inr l' \<Rightarrow> Retrace ri (Node l' a b h rk r))"
      by (simp add: CompareFunc_cases)
    with Node.prems(2) obtain l' where l': "RemoveTraverse ri l key' = Inr l'"
      "Retrace ri (Node l' a b h rk r) = Inr t'"
      by (cases "RemoveTraverse ri l key'") simp_all
    have "\<forall>x \<in> set (keys r). x \<noteq> key'" using lt ra by auto
    then have "filter (\<lambda>e. fst e \<noteq> key') (inorder r) = inorder r" by (rule filter_keys_id)
    then show ?thesis
      using Retrace_inorder [OF l'(2)] Node.IH(1) [OF sl l'(1)] lt by simp
  next
    case gt
    then have "RemoveTraverse ri ?t key' =
                 (case RemoveTraverse ri r key' of
                    Inl e \<Rightarrow> Inl e
                  | Inr r' \<Rightarrow> Retrace ri (Node l a b h rk r'))"
      using less_asym [of a key'] by (auto simp: CompareFunc_cases)
    with Node.prems(2) obtain r' where r': "RemoveTraverse ri r key' = Inr r'"
      "Retrace ri (Node l a b h rk r') = Inr t'"
      by (cases "RemoveTraverse ri r key'") simp_all
    have "\<forall>x \<in> set (keys l). x \<noteq> key'" using gt la by auto
    then have "filter (\<lambda>e. fst e \<noteq> key') (inorder l) = inorder l" by (rule filter_keys_id)
    then show ?thesis
      using Retrace_inorder [OF r'(2)] Node.IH(2) [OF sr r'(1)] gt by simp
  next
    case eq
    have fl: "filter (\<lambda>e. fst e \<noteq> key') (inorder l) = inorder l"
      using eq la by (intro filter_keys_id) auto
    have fr: "filter (\<lambda>e. fst e \<noteq> key') (inorder r) = inorder r"
      using eq ra by (intro filter_keys_id) auto
    have goal: "filter (\<lambda>e. fst e \<noteq> key') (inorder ?t) = inorder l @ inorder r"
      using fl fr eq by simp
    show ?thesis
    proof (cases "l \<noteq> NULL \<and> r \<noteq> NULL")
      case True
      from FindMin_props [of r "[]"] True obtain p mk mv mh mrk mr where
        p: "FindMin r [] = Some p" "deref r p = Node NULL mk mv mh mrk mr"
           "hd (inorder r) = (mk, mv)"
        by auto
      then have "RemoveTraverse ri ?t key' =
                   (case RemoveTraverse ri r mk of
                      Inl e \<Rightarrow> Inl e
                    | Inr tmp \<Rightarrow> Retrace ri (Node l mk mv h mrk tmp))"
        using eq True by (simp add: CompareFunc_cases)
      with Node.prems(2) obtain r' where r': "RemoveTraverse ri r mk = Inr r'"
        "Retrace ri (Node l mk mv h mrk r') = Inr t'"
        by (cases "RemoveTraverse ri r mk") simp_all
      have "inorder r' = filter (\<lambda>e. fst e \<noteq> fst (hd (inorder r))) (inorder r)"
        using Node.IH(2) [OF sr r'(1)] p(3) by simp
      also have "\<dots> = tl (inorder r)"
        using bst_strict_distinct [OF sr] True by (intro filter_hd_key) (simp_all add: keys_def)
      finally have "(mk, mv) # inorder r' = inorder r"
        using p(3) True by (metis inorder_Nil list.collapse)
      then show ?thesis
        using Retrace_inorder [OF r'(2)] goal by simp
    next
      case False
      then have "\<not> (l \<noteq> NULL \<and> r \<noteq> NULL)" .
      then have "RemoveTraverse ri ?t key' =
                   (if l \<noteq> NULL then Inr l else if r \<noteq> NULL then Inr r else Inr NULL)"
        using eq by (simp add: CompareFunc_cases del: de_Morgan_conj not_not)
      with Node.prems(2) have "inorder t' = inorder l @ inorder r"
        using False by (auto split: if_splits)
      then show ?thesis using goal by simp
    qed
  qed
qed

text \<open>
  C9. Remove of a present key is to remove one entry of that key and leave every other
  entry as it is. The tree with entries (0,z), (1,r), (2,a), (2,b), (2,c), built by five
  insertions, satisfies the six invariants with the order taken non-strictly; Remove(1)
  returns true and leaves (0,z), (2,a), (2,a), (2,c): the entry (2,b) is lost and (2,a)
  appears twice. The node of key 1 has two children: RemoveTraverse copies its in-order
  successor (2,a) into it and then removes from the right subtree by key, and that
  search stops at the root (2,b) of the right subtree, not at the successor.
\<close>

theorem C9_Remove_loses_an_entry:
  "construct DefaultRank five_entries = Inr five_entries_tree \<and>
   invariants DefaultRank five_entries_tree \<and>
   result (Query five_entries_tree FilterObject_default)
     = [(0, ''z''), (1, ''r''), (2, ''a''), (2, ''b''), (2, ''c'')] \<and>
   Find five_entries_tree 1 = Inr (Some (1, ''r'')) \<and>
   Remove DefaultRank five_entries_tree 1 = Inr (True, five_entries_removed) \<and>
   result (Query five_entries_removed FilterObject_default)
     = [(0, ''z''), (2, ''a''), (2, ''a''), (2, ''c'')]"
  by code_simp

text \<open>
  The rest of what C9 says holds of the code. Remove of an absent key returns false and
  the tree object unchanged, in any tree. In a search tree with the order taken
  non-strictly that is balanced and has right heights, Remove of a present key returns
  true, the keys afterwards are the keys before less one occurrence of that key, and the
  size decreases by one. Where no key is repeated the entries afterwards are the entries
  before without the entry of that key, in the same order.
\<close>

lemma Remove_absent_key:
  "key' \<notin> set (keys (root tree)) \<Longrightarrow> Remove ri tree key' = Inr (False, tree)"
  by (simp add: Remove_def Find_absent)

lemma Remove_present_key:
  assumes "bst_weak (root tree)" and "balanced (root tree)" and "heights_ok (root tree)"
    and present: "key' \<in> set (keys (root tree))"
  shows "\<exists>tree'. Remove ri tree key' = Inr (True, tree') \<and>
           mset (keys (root tree')) = mset (keys (root tree)) - {#key'#} \<and>
           GetSize tree' = GetSize tree - 1"
proof -
  from Find_present [OF assms(1) present] obtain v where f: "Find tree key' = Inr (Some (key', v))"
    by blast
  from RemoveTraverse_props [OF assms(2,3,1), of ri key'] obtain rt where rt:
    "RemoveTraverse ri (root tree) key' = Inr rt"
    "mset (keys rt) = mset (keys (root tree)) - {#key'#}"
    by blast
  let ?t' = "\<lparr>size_field = size_field tree - 1, root = rt,
              max_node = FindMax rt [], min_node = FindMin rt []\<rparr>"
  have "Remove ri tree key' = Inr (True, ?t')"
    using f rt(1) by (simp add: Remove_def)
  then show ?thesis
    using rt(2) by (intro exI [of _ ?t']) (simp add: GetSize_def)
qed

lemma Remove_distinct_keys:
  assumes "bst_strict (root tree)" and "balanced (root tree)" and "heights_ok (root tree)"
  shows "(key' \<in> set (keys (root tree)) \<longrightarrow>
            (\<exists>tree'. Remove ri tree key' = Inr (True, tree') \<and>
               inorder (root tree') = filter (\<lambda>e. fst e \<noteq> key') (inorder (root tree)) \<and>
               length (inorder (root tree')) + 1 = length (inorder (root tree)) \<and>
               GetSize tree' = GetSize tree - 1)) \<and>
         (key' \<notin> set (keys (root tree)) \<longrightarrow> Remove ri tree key' = Inr (False, tree))"
proof (intro conjI impI)
  assume "key' \<notin> set (keys (root tree))"
  then show "Remove ri tree key' = Inr (False, tree)"
    by (simp add: Remove_def Find_absent)
next
  assume present: "key' \<in> set (keys (root tree))"
  have w: "bst_weak (root tree)" using assms(1) by (rule bst_strict_weak)
  from Find_present [OF w present] obtain v where f: "Find tree key' = Inr (Some (key', v))"
    by blast
  from RemoveTraverse_props [OF assms(2,3) w, of ri key'] obtain rt where rt:
    "RemoveTraverse ri (root tree) key' = Inr rt"
    "mset (keys rt) = mset (keys (root tree)) - {#key'#}"
    by blast
  let ?t' = "\<lparr>size_field = size_field tree - 1, root = rt,
              max_node = FindMax rt [], min_node = FindMin rt []\<rparr>"
  have r: "Remove ri tree key' = Inr (True, ?t')"
    using f rt(1) by (simp add: Remove_def)
  have io: "inorder rt = filter (\<lambda>e. fst e \<noteq> key') (inorder (root tree))"
    using assms(1) rt(1) by (rule RemoveTraverse_inorder_strict)
  have "size (mset (keys rt)) = size (mset (keys (root tree))) - 1"
    using rt(2) present by (simp add: size_Diff_singleton)
  then have "length (inorder rt) = length (inorder (root tree)) - 1"
    by (simp add: keys_def)
  moreover have "0 < length (inorder (root tree))" using present by (auto simp: keys_def)
  ultimately have len: "length (inorder rt) + 1 = length (inorder (root tree))" by linarith
  show "\<exists>tree'. Remove ri tree key' = Inr (True, tree') \<and>
          inorder (root tree') = filter (\<lambda>e. fst e \<noteq> key') (inorder (root tree)) \<and>
          length (inorder (root tree')) + 1 = length (inorder (root tree)) \<and>
          GetSize tree' = GetSize tree - 1"
    using r io len by (intro exI [of _ ?t']) (simp add: GetSize_def)
qed
section \<open>CollectRank over the whole tree\<close>

text \<open>In a search tree with distinct keys a key names one position.\<close>

lemma follow_key_unique:
  assumes "bst_strict t"
    and "follow t ps = Node l1 k v1 h1 rk1 r1" and "follow t qs = Node l2 k v2 h2 rk2 r2"
  shows "ps = qs"
  using assms
proof (induction t arbitrary: ps qs)
  case NULL
  then show ?case by simp
next
  case (Node l a b h rk r)
  from Node.prems(1) have sl: "bst_strict l" and sr: "bst_strict r"
    and la: "\<forall>x \<in> set (keys l). x < a" and ra: "\<forall>x \<in> set (keys r). a < x"
    by simp_all
  have side: "\<And>us l' v' h' rk' r'. follow (Node l a b h rk r) us = Node l' k v' h' rk' r' \<Longrightarrow>
      (us = [] \<and> k = a) \<or> (\<exists>us'. us = LeftLink # us' \<and> k < a \<and> follow l us' = Node l' k v' h' rk' r')
      \<or> (\<exists>us'. us = RightLink # us' \<and> a < k \<and> follow r us' = Node l' k v' h' rk' r')"
  proof -
    fix us l' v' h' rk' r'
    assume f: "follow (Node l a b h rk r) us = Node l' k v' h' rk' r'"
    show "(us = [] \<and> k = a) \<or>
          (\<exists>us'. us = LeftLink # us' \<and> k < a \<and> follow l us' = Node l' k v' h' rk' r') \<or>
          (\<exists>us'. us = RightLink # us' \<and> a < k \<and> follow r us' = Node l' k v' h' rk' r')"
    proof (cases us)
      case Nil
      with f show ?thesis by simp
    next
      case (Cons u us')
      show ?thesis
      proof (cases u)
        case LeftLink
        with f Cons have g: "follow l us' = Node l' k v' h' rk' r'" by simp
        then have "k \<in> set (keys l)" using follow_in_inorder [OF g] by (force simp: keys_def)
        with la g Cons LeftLink show ?thesis by simp
      next
        case RightLink
        with f Cons have g: "follow r us' = Node l' k v' h' rk' r'" by simp
        then have "k \<in> set (keys r)" using follow_in_inorder [OF g] by (force simp: keys_def)
        with ra g Cons RightLink show ?thesis by simp
      qed
    qed
  qed
  from side [OF Node.prems(2)] side [OF Node.prems(3)] show ?case
    using Node.IH(1) [OF sl] Node.IH(2) [OF sr] by (elim disjE exE conjE) auto
qed

lemma deref_key_unique:
  assumes "bst_strict t"
    and "deref t p = Node l1 k v1 h1 rk1 r1" and "deref t q = Node l2 k v2 h2 rk2 r2"
  shows "p = q"
  using follow_key_unique [OF assms(1), of "rev p" l1 k v1 h1 rk1 r1 "rev q" l2 v2 h2 rk2 r2]
    assms(2,3)
  by (simp add: deref_def)

lemma deref_NULL [simp]: "deref NULL p = NULL"
  by (simp add: deref_def)

lemma min_cache_is_FindMin:
  assumes "bst_strict t" and "is_min_node t ptr"
  shows "ptr = FindMin t []"
proof (cases "t = NULL")
  case True
  with assms(2) show ?thesis by (cases ptr) (simp_all add: is_min_node_def)
next
  case False
  with assms(2) obtain p l k v h rk r where
    p: "ptr = Some p" "deref t p = Node l k v h rk r" "\<forall>x \<in> set (keys t). k \<le> x"
    by (cases ptr; cases "deref t (the ptr)") (auto simp: is_min_node_def)
  from FindMin_props [OF False, of "[]"] obtain p' k' v' h' rk' r' where
    p': "FindMin t [] = Some p'" "deref t p' = Node NULL k' v' h' rk' r'"
        "hd (inorder t) = (k', v')"
    by auto
  have "hd (keys t) = k'" using p'(3) False by (simp add: keys_def hd_map)
  then have "k' \<le> k"
    using sorted_hd_least [of "keys t" k] deref_in_keys [OF p(2)] bst_strict_weak [OF assms(1)]
    by (simp add: bst_weak_iff_sorted)
  moreover have "k \<le> k'" using p(3) deref_in_keys [OF p'(2)] by simp
  ultimately have "k = k'" by simp
  then have "p = p'" using deref_key_unique [OF assms(1) p(2)] p'(2) by simp
  then show ?thesis using p(1) p'(1) by simp
qed

lemma max_cache_is_FindMax:
  assumes "bst_strict t" and "is_max_node t ptr"
  shows "ptr = FindMax t []"
proof (cases "t = NULL")
  case True
  with assms(2) show ?thesis by (cases ptr) (simp_all add: is_max_node_def)
next
  case False
  with assms(2) obtain p l k v h rk r where
    p: "ptr = Some p" "deref t p = Node l k v h rk r" "\<forall>x \<in> set (keys t). x \<le> k"
    by (cases ptr; cases "deref t (the ptr)") (auto simp: is_max_node_def)
  from FindMax_props [OF False, of "[]"] obtain p' l' k' v' h' rk' where
    p': "FindMax t [] = Some p'" "deref t p' = Node l' k' v' h' rk' NULL"
        "last (inorder t) = (k', v')"
    by auto
  have "last (keys t) = k'" using p'(3) False by (simp add: keys_def last_map)
  then have "k \<le> k'"
    using sorted_last_greatest [of "keys t" k] deref_in_keys [OF p(2)]
      bst_strict_weak [OF assms(1)]
    by (simp add: bst_weak_iff_sorted)
  moreover have "k' \<le> k" using p(3) deref_in_keys [OF p'(2)] by simp
  ultimately have "k = k'" by simp
  then have "p = p'" using deref_key_unique [OF assms(1) p(2)] p'(2) by simp
  then show ?thesis using p(1) p'(1) by simp
qed

text \<open>
  The climb from the maximum of a subtree. While no key on the way equals the key of
  \<open>mlc\<close>, CollectRankTraverse adds at each node of the right spine the node's rank less
  its right child's rank; the sum is the rank of the subtree, and the climb goes on from
  the parent of the subtree.
\<close>

lemma CollectRankTraverse_step:
  assumes "deref rt pos = Node l k v h rk r" and "k \<noteq> mlc_key"
  shows "CollectRankTraverse rt mlc_key pos rel acc direction =
     (case pos of
        [] \<Rightarrow> Inl NullDereference
      | d # ds \<Rightarrow>
          CollectRankTraverse rt mlc_key ds rel
            (if direction = RIGHT_CHILD
             then (if k < rel then acc else acc + (rk - rank_of l))
             else (if rel < k then acc else acc + (rk - rank_of r)))
            direction)"
  using assms
  by (subst CollectRankTraverse.simps)
     (auto simp: GetRelativeRank_Node Let_def split: list.splits)

lemma CollectRankTraverse_stop:
  assumes "deref rt pos = Node l k v h rk r"
  shows "CollectRankTraverse rt k pos rel acc direction = Inr acc"
  using assms by (subst CollectRankTraverse.simps) simp

lemma climb_from_max:
  assumes "deref rt pos = t" and "t \<noteq> NULL"
    and "\<forall>x \<in> set (keys t). x \<noteq> mlc_key \<and> x \<le> rel"
  shows "\<exists>p. FindMax t pos = Some p \<and>
           CollectRankTraverse rt mlc_key p rel acc LEFT_CHILD =
             (case pos of
                [] \<Rightarrow> Inl NullDereference
              | d # ds \<Rightarrow> CollectRankTraverse rt mlc_key ds rel (acc + rank_of t) LEFT_CHILD)"
  using assms
proof (induction t arbitrary: pos acc)
  case NULL
  then show ?case by simp
next
  case (Node l k v h rk r)
  have k: "k \<noteq> mlc_key" "\<not> rel < k" using Node.prems(3) by auto
  have here: "\<And>acc'. CollectRankTraverse rt mlc_key pos rel acc' LEFT_CHILD =
            (case pos of
               [] \<Rightarrow> Inl NullDereference
             | d # ds \<Rightarrow>
                 CollectRankTraverse rt mlc_key ds rel (acc' + (rk - rank_of r)) LEFT_CHILD)"
    using CollectRankTraverse_step [OF Node.prems(1) k(1), of rel _ LEFT_CHILD] k(2) by simp
  show ?case
  proof (cases "r = NULL")
    case True
    then have "FindMax (Node l k v h rk r) pos = Some pos" by simp
    then show ?thesis using here [of acc] True by (simp split: list.splits)
  next
    case False
    have d: "deref rt (RightLink # pos) = r"
      using Node.prems(1) by (simp add: deref_Cons)
    from Node.IH(2) [OF d False, of acc] Node.prems(3) obtain p where
      p: "FindMax r (RightLink # pos) = Some p"
         "CollectRankTraverse rt mlc_key p rel acc LEFT_CHILD =
            CollectRankTraverse rt mlc_key pos rel (acc + rank_of r) LEFT_CHILD"
      by auto
    have "FindMax (Node l k v h rk r) pos = Some p" using False p(1) by simp
    then show ?thesis using p(2) here [of "acc + rank_of r"] by (simp split: list.splits)
  qed
qed

lemma climb_from_min:
  assumes "deref rt pos = t" and "t \<noteq> NULL"
    and "\<forall>x \<in> set (keys t). x \<noteq> mlc_key \<and> rel \<le> x"
  shows "\<exists>p. FindMin t pos = Some p \<and>
           CollectRankTraverse rt mlc_key p rel acc RIGHT_CHILD =
             (case pos of
                [] \<Rightarrow> Inl NullDereference
              | d # ds \<Rightarrow> CollectRankTraverse rt mlc_key ds rel (acc + rank_of t) RIGHT_CHILD)"
  using assms
proof (induction t arbitrary: pos acc)
  case NULL
  then show ?case by simp
next
  case (Node l k v h rk r)
  have k: "k \<noteq> mlc_key" "\<not> k < rel" using Node.prems(3) by auto
  have here: "\<And>acc'. CollectRankTraverse rt mlc_key pos rel acc' RIGHT_CHILD =
            (case pos of
               [] \<Rightarrow> Inl NullDereference
             | d # ds \<Rightarrow>
                 CollectRankTraverse rt mlc_key ds rel (acc' + (rk - rank_of l)) RIGHT_CHILD)"
    using CollectRankTraverse_step [OF Node.prems(1) k(1), of rel _ RIGHT_CHILD] k(2) by simp
  show ?case
  proof (cases "l = NULL")
    case True
    then have "FindMin (Node l k v h rk r) pos = Some pos" by simp
    then show ?thesis using here [of acc] True by (simp split: list.splits)
  next
    case False
    have d: "deref rt (LeftLink # pos) = l"
      using Node.prems(1) by (simp add: deref_Cons)
    from Node.IH(1) [OF d False, of acc] Node.prems(3) obtain p where
      p: "FindMin l (LeftLink # pos) = Some p"
         "CollectRankTraverse rt mlc_key p rel acc RIGHT_CHILD =
            CollectRankTraverse rt mlc_key pos rel (acc + rank_of l) RIGHT_CHILD"
      by auto
    have "FindMin (Node l k v h rk r) pos = Some p" using False p(1) by simp
    then show ?thesis using p(2) here [of "acc + rank_of l"] by (simp split: list.splits)
  qed
qed

lemma key_at_Node: "deref rt p = Node l k v h rk r \<Longrightarrow> key_at rt p = Inr k"
  by (simp add: key_at_def)

lemma own_rank_Node:
  "deref rt p = Node l k v h rk r \<Longrightarrow> own_rank rt p = Inr (rk - rank_of r - rank_of l)"
  by (simp add: own_rank_def GetRelativeRank_Node)

lemma keys_nonempty: "t \<noteq> NULL \<Longrightarrow> keys t \<noteq> []"
  by (cases t) simp_all

text \<open>The path decomposition between the minimum and the maximum of a tree with distinct
  keys yields the stored rank of the root.\<close>

lemma CollectRank_paths_whole:
  assumes s: "bst_strict (Node l a b h rk r)"
    and mx: "FindMax (Node l a b h rk r) [] = Some max'"
    and mn: "FindMin (Node l a b h rk r) [] = Some min'"
  shows "CollectRank_paths (Node l a b h rk r) max' min' = Inr rk"
proof -
  let ?t = "Node l a b h rk r"
  have srt: "sorted (keys ?t)"
    using bst_strict_weak [OF s] by (simp only: bst_weak_iff_sorted)
  from s have ra: "\<forall>x \<in> set (keys r). a < x" and la: "\<forall>x \<in> set (keys l). x < a" by simp_all
  from FindMax_props [of ?t "[]"] mx obtain lM maxk maxv hM rkM where
    M: "deref ?t max' = Node lM maxk maxv hM rkM NULL" "last (inorder ?t) = (maxk, maxv)"
    by auto
  from FindMin_props [of ?t "[]"] mn obtain mink minv hm rkm rm where
    m: "deref ?t min' = Node NULL mink minv hm rkm rm" "hd (inorder ?t) = (mink, minv)"
    by auto
  have lastk: "last (keys ?t) = maxk"
    using M(2) by (simp add: keys_def last_map del: inorder.simps)
  have hdk: "hd (keys ?t) = mink"
    using m(2) by (simp add: keys_def hd_map del: inorder.simps)
  have top: "\<forall>x \<in> set (keys ?t). x \<le> maxk"
    using sorted_last_greatest [OF srt] lastk by auto
  have bot: "\<forall>x \<in> set (keys ?t). mink \<le> x"
    using sorted_hd_least [OF srt] hdk by auto
  have amax: "a \<le> maxk" and amin: "mink \<le> a" using top bot by simp_all
  have kM: "key_at ?t max' = Inr maxk" using M(1) by (rule key_at_Node)
  have km: "key_at ?t min' = Inr mink" using m(1) by (rule key_at_Node)
  have mlc: "GetMostLowerCommonNode ?t [] mink maxk = Some []"
    using amax amin by (auto simp: not_less)
  have kr: "key_at ?t [] = Inr a" by (simp add: key_at_def)
  have up_max: "CollectRankTraverse ?t a max' maxk 0 LEFT_CHILD = Inr (rank_of r)"
  proof (cases "r = NULL")
    case True
    then have "max' = []" using mx by simp
    then show ?thesis using True CollectRankTraverse_stop [of ?t "[]" l a b h rk r] by simp
  next
    case False
    have "deref ?t [RightLink] = r" by (simp add: deref_Cons)
    moreover have "\<forall>x \<in> set (keys r). x \<noteq> a \<and> x \<le> maxk" using ra top by auto
    ultimately obtain p where
      p: "FindMax r [RightLink] = Some p"
         "CollectRankTraverse ?t a p maxk 0 LEFT_CHILD =
            CollectRankTraverse ?t a [] maxk (0 + rank_of r) LEFT_CHILD"
      using climb_from_max [of ?t "[RightLink]" r a maxk 0] False by auto
    have "p = max'" using mx p(1) False by simp
    then show ?thesis
      using p(2) CollectRankTraverse_stop [of ?t "[]" l a b h rk r] by simp
  qed
  have up_min: "CollectRankTraverse ?t a min' mink (rank_of r) RIGHT_CHILD
                  = Inr (rank_of r + rank_of l)"
  proof (cases "l = NULL")
    case True
    then have "min' = []" using mn by simp
    then show ?thesis using True CollectRankTraverse_stop [of ?t "[]" l a b h rk r] by simp
  next
    case False
    have "deref ?t [LeftLink] = l" by (simp add: deref_Cons)
    moreover have "\<forall>x \<in> set (keys l). x \<noteq> a \<and> mink \<le> x" using la bot by auto
    ultimately obtain p where
      p: "FindMin l [LeftLink] = Some p"
         "CollectRankTraverse ?t a p mink (rank_of r) RIGHT_CHILD =
            CollectRankTraverse ?t a [] mink (rank_of r + rank_of l) RIGHT_CHILD"
      using climb_from_min [of ?t "[LeftLink]" l a mink "rank_of r"] False by auto
    have "p = min'" using mn p(1) False by simp
    then show ?thesis
      using p(2) CollectRankTraverse_stop [of ?t "[]" l a b h rk r] by simp
  qed
  have own: "own_rank ?t [] = Inr (rk - rank_of r - rank_of l)"
    by (rule own_rank_Node) simp
  show ?thesis
    by (simp add: CollectRank_paths_def kM km mlc kr up_max up_min own
          del: GetMostLowerCommonNode.simps)
qed

text \<open>
  CollectRank when neither boundary search yields a node and no limit applies, in a tree
  with distinct keys whose caches are right: the result is the stored rank of the root.
\<close>

lemma CollectRank_whole:
  assumes s: "bst_strict (root tree)" and c: "caches_ok tree" and lim: "limit f \<le> 0"
    and bmax: "case max_range f of None \<Rightarrow> True
               | Some m \<Rightarrow> ClosestTraverse (root tree) [] m None LESS_THAN = None"
    and bmin: "case min_range f of None \<Rightarrow> True
               | Some m \<Rightarrow> ClosestTraverse (root tree) [] m None GREATER_THAN = None"
  shows "CollectRank tree f = Inr (rank_of (root tree))"
proof -
  have cmax: "max_node tree = FindMax (root tree) []"
    using c s by (simp add: caches_ok_def max_cache_is_FindMax)
  have cmin: "min_node tree = FindMin (root tree) []"
    using c s by (simp add: caches_ok_def min_cache_is_FindMin)
  have max1: "(case max_range f of
                 None \<Rightarrow> max_node tree
               | Some m \<Rightarrow>
                   (case ClosestTraverse (root tree) [] m None LESS_THAN of
                      None \<Rightarrow> max_node tree
                    | Some tmp_max \<Rightarrow> Some tmp_max)) = FindMax (root tree) []"
    using bmax cmax by (cases "max_range f") simp_all
  have min1: "(case min_range f of
                 None \<Rightarrow> min_node tree
               | Some m \<Rightarrow>
                   (case ClosestTraverse (root tree) [] m None GREATER_THAN of
                      None \<Rightarrow> min_node tree
                    | Some tmp_min \<Rightarrow> Some tmp_min)) = FindMin (root tree) []"
    using bmin cmin by (cases "min_range f") simp_all
  show ?thesis
  proof (cases "root tree")
    case NULL
    then show ?thesis
      unfolding CollectRank_def max1 min1 by simp
  next
    case (Node l a b h rk r)
    let ?t = "Node l a b h rk r"
    have s': "bst_strict ?t" using s Node by simp
    have srt: "sorted (keys ?t)"
      using bst_strict_weak [OF s'] by (simp only: bst_weak_iff_sorted)
    from s' have ra: "\<forall>x \<in> set (keys r). a < x" and la: "\<forall>x \<in> set (keys l). x < a"
      by simp_all
    from FindMax_props [of ?t "[]"] obtain max' lM maxk maxv hM rkM where
      M: "FindMax ?t [] = Some max'" "deref ?t max' = Node lM maxk maxv hM rkM NULL"
         "last (inorder ?t) = (maxk, maxv)"
      by auto
    from FindMin_props [of ?t "[]"] obtain min' mink minv hm rkm rm where
      m: "FindMin ?t [] = Some min'" "deref ?t min' = Node NULL mink minv hm rkm rm"
         "hd (inorder ?t) = (mink, minv)"
      by auto
    have kM: "key_at ?t max' = Inr maxk" using M(2) by (rule key_at_Node)
    have km: "key_at ?t min' = Inr mink" using m(2) by (rule key_at_Node)
    have lastk: "last (keys ?t) = maxk"
      using M(3) by (simp add: keys_def last_map del: inorder.simps)
    have hdk: "hd (keys ?t) = mink"
      using m(3) by (simp add: keys_def hd_map del: inorder.simps)
    have top: "\<forall>x \<in> set (keys ?t). x \<le> maxk"
      using sorted_last_greatest [OF srt] lastk by auto
    have bot: "\<forall>x \<in> set (keys ?t). mink \<le> x"
      using sorted_hd_least [OF srt] hdk by auto
    have paths: "CollectRank_paths ?t max' min' = Inr rk"
      using s' M(1) m(1) by (rule CollectRank_paths_whole)
    have single: "own_rank ?t max' = Inr rk" if eq: "maxk = mink"
    proof -
      have "a = maxk" using top bot eq by (simp add: order_antisym)
      then have "max' = []"
        using deref_key_unique [OF s' M(2), of "[]" l b h rk r] by simp
      moreover have "r = NULL"
      proof (rule ccontr)
        assume "r \<noteq> NULL"
        then obtain x where "x \<in> set (keys r)" using keys_nonempty [of r] by (cases "keys r") auto
        then show False using ra top \<open>a = maxk\<close> by force
      qed
      moreover have "l = NULL"
      proof (rule ccontr)
        assume "l \<noteq> NULL"
        then obtain x where "x \<in> set (keys l)" using keys_nonempty [of l] by (cases "keys l") auto
        then show False using la bot \<open>a = maxk\<close> eq by force
      qed
      ultimately show ?thesis by (simp add: own_rank_def GetRelativeRank_Node)
    qed
    show ?thesis
      unfolding CollectRank_def max1 min1
      unfolding Node M(1) m(1)
      using lim single paths by (simp add: kM km)
  qed
qed

lemma rank_of_sum:
  "ranks_ok ri t \<Longrightarrow> rank_of t = (\<Sum>(k, v) \<leftarrow> inorder t. ri k v)"
  by (induction t) simp_all

lemma ranks_ok_follow: "ranks_ok ri t \<Longrightarrow> ranks_ok ri (follow t ps)"
  by (induction t ps rule: follow.induct) simp_all

lemma ranks_ok_deref: "ranks_ok ri t \<Longrightarrow> ranks_ok ri (deref t p)"
  unfolding deref_def by (rule ranks_ok_follow)

lemma rank_of_nonneg:
  "ranks_ok ri t \<Longrightarrow> \<forall>k v. 0 < ri k v \<Longrightarrow> 0 \<le> rank_of t"
proof (induction t)
  case NULL
  then show ?case by simp
next
  case (Node l k v h rk r)
  then have "0 \<le> rank_of l" "0 \<le> rank_of r" "0 < ri k v" by simp_all
  then show ?case using Node.prems(1) by simp
qed

lemma deref_parent_Node:
  "deref rt (d # ds) = Node l k v h rk r \<Longrightarrow> deref rt ds \<noteq> NULL"
  by (cases "deref rt ds") (simp_all add: deref_Cons)

text \<open>
  A climb that starts at a node of the tree ends at the root at the latest, where the key
  is the key of the root; with positive contributions it never lowers the accumulated
  rank.
\<close>

lemma climb_total:
  assumes "deref (Node l0 a b0 h0 rk0 r0) pos = Node l k v h rk r"
  shows "\<exists>n. CollectRankTraverse (Node l0 a b0 h0 rk0 r0) a pos rel acc direction = Inr n \<and>
           (ranks_ok ri (Node l0 a b0 h0 rk0 r0) \<and> (\<forall>k v. 0 < ri k v) \<longrightarrow> acc \<le> n)"
  using assms
proof (induction pos arbitrary: acc l k v h rk r)
  case Nil
  then have "CollectRankTraverse (Node l0 a b0 h0 rk0 r0) a [] rel acc direction = Inr acc"
    using CollectRankTraverse_stop [of "Node l0 a b0 h0 rk0 r0" "[]" l0 a b0 h0 rk0 r0] by simp
  then show ?case by simp
next
  case (Cons d ds)
  let ?rt = "Node l0 a b0 h0 rk0 r0"
  show ?case
  proof (cases "k = a")
    case True
    then have "CollectRankTraverse ?rt a (d # ds) rel acc direction = Inr acc"
      using CollectRankTraverse_stop [OF Cons.prems] by simp
    then show ?thesis by simp
  next
    case False
    let ?acc' = "if direction = RIGHT_CHILD
                 then (if k < rel then acc else acc + (rk - rank_of l))
                 else (if rel < k then acc else acc + (rk - rank_of r))"
    have step: "CollectRankTraverse ?rt a (d # ds) rel acc direction =
                  CollectRankTraverse ?rt a ds rel ?acc' direction"
      using CollectRankTraverse_step [OF Cons.prems False, of rel acc direction] by simp
    from deref_parent_Node [OF Cons.prems] obtain l' k' v' h' rk' r' where
      par: "deref ?rt ds = Node l' k' v' h' rk' r'"
      by (cases "deref ?rt ds") auto
    from Cons.IH [OF par, of ?acc'] obtain n where
      n: "CollectRankTraverse ?rt a ds rel ?acc' direction = Inr n"
         "ranks_ok ri ?rt \<and> (\<forall>k v. 0 < ri k v) \<longrightarrow> ?acc' \<le> n"
      by blast
    have mono: "acc \<le> ?acc'" if ok: "ranks_ok ri ?rt" and pos: "\<forall>k v. 0 < ri k v"
    proof -
      have "ranks_ok ri (Node l k v h rk r)"
        using ranks_ok_deref [OF ok, of "d # ds"] Cons.prems by simp
      then have "rk = ri k v + rank_of l + rank_of r" "0 \<le> rank_of l" "0 \<le> rank_of r"
        using rank_of_nonneg [of ri l] rank_of_nonneg [of ri r] pos by simp_all
      moreover have "0 < ri k v" using pos by simp
      ultimately show ?thesis by simp
    qed
    show ?thesis
      using step n mono by (intro exI [of _ n]) auto
  qed
qed

text \<open>
  CollectRank when neither boundary search yields a node and no limit applies, in any
  non-empty tree whose caches name a node of least and a node of greatest key: the
  method returns a rank, and with positive contributions a positive one.
\<close>

lemma CollectRank_fallback:
  assumes nn: "root tree \<noteq> NULL" and c: "caches_ok tree" and lim: "limit f \<le> 0"
    and bmax: "case max_range f of None \<Rightarrow> True
               | Some m \<Rightarrow> ClosestTraverse (root tree) [] m None LESS_THAN = None"
    and bmin: "case min_range f of None \<Rightarrow> True
               | Some m \<Rightarrow> ClosestTraverse (root tree) [] m None GREATER_THAN = None"
  shows "\<exists>n. CollectRank tree f = Inr n \<and>
           (ranks_ok ri (root tree) \<and> (\<forall>k v. 0 < ri k v) \<longrightarrow> 0 < n)"
proof -
  from nn obtain l a b h rk r where Node: "root tree = Node l a b h rk r"
    by (cases "root tree") auto
  let ?t = "Node l a b h rk r"
  from c Node obtain max' lM maxk maxv hM rkM rM where
    M: "max_node tree = Some max'" "deref ?t max' = Node lM maxk maxv hM rkM rM"
       "\<forall>x \<in> set (keys ?t). x \<le> maxk"
    by (auto simp: caches_ok_def is_max_node_def split: option.splits Node.splits)
  from c Node obtain min' lm mink minv hm rkm rm where
    m: "min_node tree = Some min'" "deref ?t min' = Node lm mink minv hm rkm rm"
       "\<forall>x \<in> set (keys ?t). mink \<le> x"
    by (auto simp: caches_ok_def is_min_node_def split: option.splits Node.splits)
  have max1: "(case max_range f of
                 None \<Rightarrow> max_node tree
               | Some m \<Rightarrow>
                   (case ClosestTraverse (root tree) [] m None LESS_THAN of
                      None \<Rightarrow> max_node tree
                    | Some tmp_max \<Rightarrow> Some tmp_max)) = Some max'"
    using bmax M(1) by (cases "max_range f") simp_all
  have min1: "(case min_range f of
                 None \<Rightarrow> min_node tree
               | Some m \<Rightarrow>
                   (case ClosestTraverse (root tree) [] m None GREATER_THAN of
                      None \<Rightarrow> min_node tree
                    | Some tmp_min \<Rightarrow> Some tmp_min)) = Some min'"
    using bmin m(1) by (cases "min_range f") simp_all
  have kM: "key_at ?t max' = Inr maxk" using M(2) by (rule key_at_Node)
  have km: "key_at ?t min' = Inr mink" using m(2) by (rule key_at_Node)
  have amax: "a \<le> maxk" and amin: "mink \<le> a" using M(3) m(3) by simp_all
  have mlc: "GetMostLowerCommonNode ?t [] mink maxk = Some []"
    using amax amin by (auto simp: not_less)
  have kr: "key_at ?t [] = Inr a" by (simp add: key_at_def)
  from climb_total [OF M(2), of maxk 0 LEFT_CHILD ri] obtain n1 where
    n1: "CollectRankTraverse ?t a max' maxk 0 LEFT_CHILD = Inr n1"
        "ranks_ok ri ?t \<and> (\<forall>k v. 0 < ri k v) \<longrightarrow> 0 \<le> n1"
    by blast
  from climb_total [OF m(2), of mink n1 RIGHT_CHILD ri] obtain n2 where
    n2: "CollectRankTraverse ?t a min' mink n1 RIGHT_CHILD = Inr n2"
        "ranks_ok ri ?t \<and> (\<forall>k v. 0 < ri k v) \<longrightarrow> n1 \<le> n2"
    by blast
  have own: "own_rank ?t [] = Inr (rk - rank_of r - rank_of l)"
    by (rule own_rank_Node) simp
  have ownM: "own_rank ?t max' = Inr (rkM - rank_of rM - rank_of lM)"
    using M(2) by (rule own_rank_Node)
  have paths: "CollectRank_paths ?t max' min' = Inr (n2 + (rk - rank_of r - rank_of l))"
    by (simp add: CollectRank_paths_def kM km mlc kr n1 n2 own
          del: GetMostLowerCommonNode.simps)
  have res: "CollectRank tree f =
               Inr (if maxk = mink then rkM - rank_of rM - rank_of lM
                    else n2 + (rk - rank_of r - rank_of l))"
    unfolding CollectRank_def max1 min1
    unfolding Node
    using lim paths ownM by (simp add: kM km)
  have "0 < (if maxk = mink then rkM - rank_of rM - rank_of lM
             else n2 + (rk - rank_of r - rank_of l))"
    if ok: "ranks_ok ri ?t" and pos: "\<forall>k v. 0 < ri k v"
  proof -
    have "ranks_ok ri (Node lM maxk maxv hM rkM rM)"
      using ranks_ok_deref [OF ok, of max'] M(2) by simp
    then have "rkM - rank_of rM - rank_of lM = ri maxk maxv" by simp
    moreover have "0 < ri maxk maxv" using pos by simp
    ultimately have one: "0 < rkM - rank_of rM - rank_of lM" by simp
    have "rk - rank_of r - rank_of l = ri a b" using ok by simp
    moreover have "0 \<le> n2" using n1(2) n2(2) ok pos by simp
    moreover have "0 < ri a b" using pos by simp
    ultimately have two: "0 < n2 + (rk - rank_of r - rank_of l)" by simp
    show ?thesis using one two by simp
  qed
  then show ?thesis using res Node by auto
qed

text \<open>
  C7. CollectRank with the default filter is to return the combination of the
  contributions of all entries of the unfiltered Query result. The tree built by
  Insert(1, a), Insert(1, b) satisfies the six invariants as the specification words
  them, its unfiltered Query holds two entries, whose contributions combine to 2, and
  CollectRank with the default filter returns 1: the test whether the minimum and the
  maximum node are one node compares their keys, which are equal, and the method
  returns the contribution of the maximum node alone.
\<close>

theorem C7_CollectRank_two_equal_keys:
  "construct DefaultRank (Inserted (Inserted Empty 1 ''a'') 1 ''b'') = Inr two_equal_keys_tree \<and>
   invariants_spec DefaultRank two_equal_keys_tree \<and>
   result (Query two_equal_keys_tree FilterObject_default) = [(1, ''a''), (1, ''b'')] \<and>
   sum_list (map (case_prod DefaultRank) (result (Query two_equal_keys_tree FilterObject_default)))
     = 2 \<and>
   CollectRank two_equal_keys_tree FilterObject_default = Inr 1"
  by code_simp

text \<open>
  Where no key is repeated, equal keys do mean one node: in a tree with pairwise distinct
  keys whose stored ranks and caches are right, CollectRank with the default filter
  returns the combination of the contributions of all entries of the unfiltered Query
  result (the empty rank for the empty tree).
\<close>

lemma CollectRank_default_distinct_keys:
  assumes "bst_strict (root tree)" and "ranks_ok ri (root tree)" and "caches_ok tree"
  shows "CollectRank tree FilterObject_default =
           Inr (\<Sum>(k, v) \<leftarrow> result (Query tree FilterObject_default). ri k v)"
proof -
  have "CollectRank tree FilterObject_default = Inr (rank_of (root tree))"
    using assms(1,3) by (rule CollectRank_whole) (simp_all add: FilterObject_default_def)
  then show ?thesis
    using rank_of_sum [OF assms(2)] by (simp add: Query_default)
qed

section \<open>CollectRank with a bound beyond every key\<close>

lemma ClosestTraverse_GREATER_none:
  "\<forall>x \<in> set (keys t). x < m \<Longrightarrow> ClosestTraverse t pos m res GREATER_THAN = res"
proof (induction t arbitrary: pos res)
  case NULL
  then show ?case by simp
next
  case (Node l a b h rk r)
  then have "a < m" by simp
  then show ?case using Node less_asym [of a m] by (auto simp: CompareFunc_cases)
qed

lemma ClosestTraverse_LESS_none:
  "\<forall>x \<in> set (keys t). m < x \<Longrightarrow> ClosestTraverse t pos m res LESS_THAN = res"
proof (induction t arbitrary: pos res)
  case NULL
  then show ?case by simp
next
  case (Node l a b h rk r)
  then have "m < a" by simp
  then show ?case using Node by (simp add: CompareFunc_cases)
qed

text \<open>
  C10, as stated, fails in two ways. With the rank class whose contribution is the key,
  the tree built by Insert(-1, a), Insert(1, b) satisfies the six invariants as the
  specification words them and every key is less than 5; CollectRank with only
  \<open>min_range = 5\<close> returns 0, the combination of the contributions -1 and 1 of the whole
  tree, which is the empty rank. With the count as rank class, in the tree built by
  Insert(1, a), Insert(1, b) every key is less than 5 and greater than 0; CollectRank
  with only \<open>min_range = 5\<close>, and with only \<open>max_range = 0\<close>, returns 1, which is not
  the empty rank, while the contributions of the whole tree combine to 2.
\<close>

theorem C10_counterexample:
  "construct KeyRank (Inserted (Inserted Empty (- 1) ''a'') 1 ''b'') = Inr keys_minus_1_1 \<and>
   invariants_spec KeyRank keys_minus_1_1 \<and>
   keys (root keys_minus_1_1) = [- 1, 1] \<and>
   CollectRank keys_minus_1_1 (FilterObject_default\<lparr>min_range := Some 5\<rparr>) = Inr 0 \<and>
   construct DefaultRank (Inserted (Inserted Empty 1 ''a'') 1 ''b'') = Inr two_equal_keys_tree \<and>
   invariants_spec DefaultRank two_equal_keys_tree \<and>
   keys (root two_equal_keys_tree) = [1, 1] \<and>
   CollectRank two_equal_keys_tree (FilterObject_default\<lparr>min_range := Some 5\<rparr>) = Inr 1 \<and>
   CollectRank two_equal_keys_tree (FilterObject_default\<lparr>max_range := Some 0\<rparr>) = Inr 1 \<and>
   rank_of (root two_equal_keys_tree) = 2 \<and>
   sum_list (map (case_prod DefaultRank) (inorder (root two_equal_keys_tree))) = 2"
  by code_simp

text \<open>
  C10, amended. In every non-empty tree whose stored ranks and caches satisfy invariants
  4 and 6, keys repeated or not: when every key is less than \<open>min_range\<close> and no other
  filter field is set, the boundary search yields no node, the lower boundary is the
  cached minimum, so that CollectRank returns what it returns with the default filter,
  and that result is a rank, which with positive contributions, as those of DefaultRank,
  is not the empty rank; when no key is repeated it is the combination of the
  contributions of all entries of the tree. Symmetrically when every key is greater than
  \<open>max_range\<close>. What the result is on repeated keys is left open.
\<close>

theorem C10_CollectRank_bound_beyond_keys:
  assumes "root tree \<noteq> NULL" and "ranks_ok ri (root tree)" and "caches_ok tree"
  shows "((\<forall>k \<in> set (keys (root tree)). k < m) \<longrightarrow>
            ClosestTraverse (root tree) [] m None GREATER_THAN = None \<and>
            CollectRank tree (FilterObject_default\<lparr>min_range := Some m\<rparr>) =
              CollectRank tree FilterObject_default \<and>
            (\<exists>n. CollectRank tree (FilterObject_default\<lparr>min_range := Some m\<rparr>) = Inr n \<and>
                 ((\<forall>k v. 0 < ri k v) \<longrightarrow> 0 < n) \<and>
                 (bst_strict (root tree) \<longrightarrow> n = (\<Sum>(k, v) \<leftarrow> inorder (root tree). ri k v)))) \<and>
         ((\<forall>k \<in> set (keys (root tree)). m < k) \<longrightarrow>
            ClosestTraverse (root tree) [] m None LESS_THAN = None \<and>
            CollectRank tree (FilterObject_default\<lparr>max_range := Some m\<rparr>) =
              CollectRank tree FilterObject_default \<and>
            (\<exists>n. CollectRank tree (FilterObject_default\<lparr>max_range := Some m\<rparr>) = Inr n \<and>
                 ((\<forall>k v. 0 < ri k v) \<longrightarrow> 0 < n) \<and>
                 (bst_strict (root tree) \<longrightarrow> n = (\<Sum>(k, v) \<leftarrow> inorder (root tree). ri k v))))"
proof (intro conjI impI)
  assume below: "\<forall>k \<in> set (keys (root tree)). k < m"
  let ?f = "FilterObject_default\<lparr>min_range := Some m\<rparr> :: ('a, 'b) FilterObject"
  from below show none: "ClosestTraverse (root tree) [] m None GREATER_THAN = None"
    by (rule ClosestTraverse_GREATER_none)
  show "CollectRank tree ?f = CollectRank tree FilterObject_default"
    by (simp add: CollectRank_def FilterObject_default_def none
          split: option.splits sum.splits)
  from CollectRank_fallback [OF assms(1,3), of ?f ri] obtain n where
    n: "CollectRank tree ?f = Inr n" "ranks_ok ri (root tree) \<and> (\<forall>k v. 0 < ri k v) \<longrightarrow> 0 < n"
    by (auto simp: FilterObject_default_def none)
  have "n = (\<Sum>(k, v) \<leftarrow> inorder (root tree). ri k v)" if s: "bst_strict (root tree)"
  proof -
    have "CollectRank tree ?f = Inr (rank_of (root tree))"
      using s assms(3) by (rule CollectRank_whole) (simp_all add: FilterObject_default_def none)
    then show ?thesis using n(1) rank_of_sum [OF assms(2)] by simp
  qed
  then show "\<exists>n. CollectRank tree ?f = Inr n \<and> ((\<forall>k v. 0 < ri k v) \<longrightarrow> 0 < n) \<and>
               (bst_strict (root tree) \<longrightarrow> n = (\<Sum>(k, v) \<leftarrow> inorder (root tree). ri k v))"
    using n assms(2) by (intro exI [of _ n]) simp
next
  assume above: "\<forall>k \<in> set (keys (root tree)). m < k"
  let ?f = "FilterObject_default\<lparr>max_range := Some m\<rparr> :: ('a, 'b) FilterObject"
  from above show none: "ClosestTraverse (root tree) [] m None LESS_THAN = None"
    by (rule ClosestTraverse_LESS_none)
  show "CollectRank tree ?f = CollectRank tree FilterObject_default"
    by (simp add: CollectRank_def FilterObject_default_def none
          split: option.splits sum.splits)
  from CollectRank_fallback [OF assms(1,3), of ?f ri] obtain n where
    n: "CollectRank tree ?f = Inr n" "ranks_ok ri (root tree) \<and> (\<forall>k v. 0 < ri k v) \<longrightarrow> 0 < n"
    by (auto simp: FilterObject_default_def none)
  have "n = (\<Sum>(k, v) \<leftarrow> inorder (root tree). ri k v)" if s: "bst_strict (root tree)"
  proof -
    have "CollectRank tree ?f = Inr (rank_of (root tree))"
      using s assms(3) by (rule CollectRank_whole) (simp_all add: FilterObject_default_def none)
    then show ?thesis using n(1) rank_of_sum [OF assms(2)] by simp
  qed
  then show "\<exists>n. CollectRank tree ?f = Inr n \<and> ((\<forall>k v. 0 < ri k v) \<longrightarrow> 0 < n) \<and>
               (bst_strict (root tree) \<longrightarrow> n = (\<Sum>(k, v) \<leftarrow> inorder (root tree). ri k v))"
    using n assms(2) by (intro exI [of _ n]) simp
qed

theorem C10_CollectRank_witness:
  "root keys_1_3_5 \<noteq> NULL \<and> ranks_ok DefaultRank (root keys_1_3_5) \<and> caches_ok keys_1_3_5 \<and>
   bst_strict (root keys_1_3_5) \<and> keys (root keys_1_3_5) = [1, 3, 5] \<and>
   ClosestTraverse (root keys_1_3_5) [] 30 None GREATER_THAN = None \<and>
   CollectRank keys_1_3_5 (FilterObject_default\<lparr>min_range := Some 30\<rparr>) = Inr 3 \<and>
   ClosestTraverse (root keys_1_3_5) [] 0 None LESS_THAN = None \<and>
   CollectRank keys_1_3_5 (FilterObject_default\<lparr>max_range := Some 0\<rparr>) = Inr 3 \<and>
   root two_equal_keys_tree \<noteq> NULL \<and> ranks_ok DefaultRank (root two_equal_keys_tree) \<and>
   caches_ok two_equal_keys_tree \<and> keys (root two_equal_keys_tree) = [1, 1] \<and>
   ClosestTraverse (root two_equal_keys_tree) [] 5 None GREATER_THAN = None \<and>
   CollectRank two_equal_keys_tree (FilterObject_default\<lparr>min_range := Some 5\<rparr>) =
     CollectRank two_equal_keys_tree FilterObject_default"
proof -
  have n: "root keys_1_3_5 \<noteq> NULL" by code_simp
  have b: "ranks_ok DefaultRank (root keys_1_3_5)" by code_simp
  have c: "caches_ok keys_1_3_5" by code_simp
  have a: "bst_strict (root keys_1_3_5)" by code_simp
  have d: "(\<Sum>(k, v) \<leftarrow> inorder (root keys_1_3_5). DefaultRank k v) = 3"
    by code_simp
  have e: "\<forall>k \<in> set (keys (root keys_1_3_5)). k < 30" by code_simp
  have f: "\<forall>k \<in> set (keys (root keys_1_3_5)). 0 < k" by code_simp
  have g: "keys (root keys_1_3_5) = [1, 3, 5]" by code_simp
  have n2: "root two_equal_keys_tree \<noteq> NULL" by code_simp
  have b2: "ranks_ok DefaultRank (root two_equal_keys_tree)" by code_simp
  have c2: "caches_ok two_equal_keys_tree" by code_simp
  have e2: "\<forall>k \<in> set (keys (root two_equal_keys_tree)). k < 5" by code_simp
  have g2: "keys (root two_equal_keys_tree) = [1, 1]" by code_simp
  show ?thesis
    using n b c a e f g n2 b2 c2 e2 g2
      C10_CollectRank_bound_beyond_keys [OF n b c, of 30]
      C10_CollectRank_bound_beyond_keys [OF n b c, of 0]
      C10_CollectRank_bound_beyond_keys [OF n2 b2 c2, of 5]
    unfolding d by auto
qed
end
